theory Spec2Isabelle
  imports Main "HOL-Library.AList"
begin

section \<open>Node identifiers and link identities (graph.ts)\<close>

text \<open>
  \<^verbatim>\<open>NodeId extends string | number\<close>. Numbers are modelled by the integers (the
  identifiers the callers use); a string is the list of its UTF-8 bytes. The two kinds never
  compare equal under \<^verbatim>\<open>===\<close>, exactly as the two constructors.
\<close>

datatype nodeid = NumId int | StrId string

text \<open>JavaScript truthiness of an identifier: \<^verbatim>\<open>!id\<close> holds for \<^verbatim>\<open>0\<close> and \<^verbatim>\<open>''\<close>.\<close>

fun falsy :: "nodeid \<Rightarrow> bool" where
  "falsy (NumId n) = (n = 0)"
| "falsy (StrId s) = (s = [])"

definition digit :: "nat \<Rightarrow> char" where
  "digit d = ''0123456789'' ! d"

fun nat_str :: "nat \<Rightarrow> string" where
  "nat_str n = (if n < 10 then [digit n] else nat_str (n div 10) @ [digit (n mod 10)])"

declare nat_str.simps [simp del]

definition int_str :: "int \<Rightarrow> string" where
  "int_str i = (if i < 0 then CHR ''-'' # nat_str (nat (- i)) else nat_str (nat i))"

text \<open>The conversion a template literal \<^verbatim>\<open>`${id}`\<close> (or \<^verbatim>\<open>id + suffix\<close>) applies.\<close>

fun id_str :: "nodeid \<Rightarrow> string" where
  "id_str (NumId n) = int_str n"
| "id_str (StrId s) = s"

text \<open>The separator of \<^verbatim>\<open>Link.makeId\<close> is U+1F449, here as its four UTF-8 bytes.\<close>

definition pointing :: string where
  "pointing = [CHR 0xF0, CHR 0x9F, CHR 0x91, CHR 0x89]"

definition makeId_str :: "string \<Rightarrow> string \<Rightarrow> string" where
  "makeId_str a b = a @ pointing @ b"

definition makeId :: "nodeid \<Rightarrow> nodeid \<Rightarrow> string" where
  "makeId fromId toId = makeId_str (id_str fromId) (id_str toId)"

section \<open>Nodes, links and the graph store (graph.ts)\<close>

text \<open>
  \<^verbatim>\<open>Node\<close> and \<^verbatim>\<open>Link\<close> objects are mutable and shared (a link is held by the
  store and by the sets of both endpoints), so they live in explicit heaps and are referred
  to by address. A \<^verbatim>\<open>Set<Link>\<close> is the list of its elements in insertion order;
  \<^verbatim>\<open>undefined\<close> is \<open>None\<close>.
\<close>

type_synonym node_ref = nat
type_synonym link_ref = nat

record 'nd Node =
  node_id :: nodeid
  node_links :: "link_ref list option"
  node_data :: "'nd option"

record 'ld Link =
  link_fromId :: nodeid
  link_toId :: nodeid
  link_data :: "'ld option"
  link_id :: string

datatype ChangeType = Add | Update | Remove

datatype Change = NodeChange ChangeType node_ref | LinkChange ChangeType link_ref

text \<open>
  The private fields of \<^verbatim>\<open>Graph\<close>. The two \<^verbatim>\<open>Map\<close>s are association lists in
  insertion order. \<open>node_heap\<close>, \<open>link_heap\<close> hold the objects, \<open>next_node\<close> and
  \<open>next_link\<close> are the addresses \<^verbatim>\<open>new\<close> hands out next, and \<open>emitted\<close> is the
  sequence of argument lists \<^verbatim>\<open>emit('changed', ...)\<close> has delivered to the listeners.
\<close>

record ('nd, 'ld) Graph =
  multigraph :: bool
  nodes :: "(nodeid \<times> node_ref) list"
  links :: "(string \<times> link_ref) list"
  multiEdges :: "string \<Rightarrow> nat option"
  suspendEvents :: int
  listening :: bool
  changes :: "Change list"
  node_heap :: "node_ref \<Rightarrow> 'nd Node"
  link_heap :: "link_ref \<Rightarrow> 'ld Link"
  next_node :: nat
  next_link :: nat
  emitted :: "Change list list"

definition Graph_new :: "bool \<Rightarrow> ('nd, 'ld) Graph" where
  "Graph_new mg =
     \<lparr>multigraph = mg, nodes = [], links = [], multiEdges = (\<lambda>_. None), suspendEvents = 0,
      listening = False, changes = [],
      node_heap = (\<lambda>_. \<lparr>node_id = NumId 0, node_links = None, node_data = None\<rparr>),
      link_heap = (\<lambda>_. \<lparr>link_fromId = NumId 0, link_toId = NumId 0, link_data = None,
                          link_id = []\<rparr>),
      next_node = 0, next_link = 0, emitted = []\<rparr>"

text \<open>\<^verbatim>\<open>on('changed', listener)\<close>: subscribing switches change tracking on.\<close>

definition on_changed :: "('nd, 'ld) Graph \<Rightarrow> ('nd, 'ld) Graph" where
  "on_changed g = g\<lparr>listening := True\<rparr>"

text \<open>\<^verbatim>\<open>new Link(fromId, toId, data, id)\<close>, with \<^verbatim>\<open>id ?? Link.makeId(fromId, toId)\<close>.\<close>

definition Link_new ::
  "nodeid \<Rightarrow> nodeid \<Rightarrow> 'ld option \<Rightarrow> string option \<Rightarrow> ('nd, 'ld) Graph
     \<Rightarrow> link_ref \<times> ('nd, 'ld) Graph" where
  "Link_new fromId toId d i g =
     (let l = next_link g
      in (l, g\<lparr>link_heap := (link_heap g)
                  (l := \<lparr>link_fromId = fromId, link_toId = toId, link_data = d,
                         link_id = (case i of Some s \<Rightarrow> s | None \<Rightarrow> makeId fromId toId)\<rparr>),
                next_link := Suc l\<rparr>))"

definition enterModification :: "('nd, 'ld) Graph \<Rightarrow> ('nd, 'ld) Graph" where
  "enterModification g = g\<lparr>suspendEvents := suspendEvents g + 1\<rparr>"

definition exitModification :: "('nd, 'ld) Graph \<Rightarrow> ('nd, 'ld) Graph" where
  "exitModification g =
     (let g1 = g\<lparr>suspendEvents := suspendEvents g - 1\<rparr>
      in if suspendEvents g1 = 0 \<and> length (changes g1) > 0
         then g1\<lparr>emitted := emitted g1 @ [changes g1], changes := []\<rparr>
         else g1)"

definition recordNodeChange ::
  "node_ref \<Rightarrow> ChangeType \<Rightarrow> ('nd, 'ld) Graph \<Rightarrow> ('nd, 'ld) Graph" where
  "recordNodeChange n ct g =
     (if listening g then g\<lparr>changes := changes g @ [NodeChange ct n]\<rparr> else g)"

definition recordLinkChange ::
  "link_ref \<Rightarrow> ChangeType \<Rightarrow> ('nd, 'ld) Graph \<Rightarrow> ('nd, 'ld) Graph" where
  "recordLinkChange l ct g =
     (if listening g then g\<lparr>changes := changes g @ [LinkChange ct l]\<rparr> else g)"

definition nodeCount :: "('nd, 'ld) Graph \<Rightarrow> nat" where
  "nodeCount g = length (nodes g)"

definition linkCount :: "('nd, 'ld) Graph \<Rightarrow> nat" where
  "linkCount g = length (links g)"

definition getNode :: "('nd, 'ld) Graph \<Rightarrow> nodeid \<Rightarrow> node_ref option" where
  "getNode g nodeId = map_of (nodes g) nodeId"

definition addNode ::
  "nodeid \<Rightarrow> 'nd option \<Rightarrow> ('nd, 'ld) Graph \<Rightarrow> node_ref \<times> ('nd, 'ld) Graph" where
  "addNode nodeId d g =
     (let g1 = enterModification g
      in case getNode g1 nodeId of
           Some n \<Rightarrow>
             (let g2 = g1\<lparr>node_heap := (node_heap g1)(n := (node_heap g1 n)\<lparr>node_data := d\<rparr>)\<rparr>;
                  g3 = recordNodeChange n Update g2
              in (n, exitModification g3))
         | None \<Rightarrow>
             (let n = next_node g1;
                  g2 = g1\<lparr>node_heap := (node_heap g1)
                            (n := \<lparr>node_id = nodeId, node_links = None, node_data = d\<rparr>),
                          next_node := Suc n\<rparr>;
                  g3 = recordNodeChange n Add g2;
                  g4 = g3\<lparr>nodes := AList.update nodeId n (nodes g3)\<rparr>
              in (n, exitModification g4)))"

text \<open>\<^verbatim>\<open>this.getNode(id)?.links?.delete(link)\<close>\<close>

definition detach :: "nodeid \<Rightarrow> link_ref \<Rightarrow> ('nd, 'ld) Graph \<Rightarrow> ('nd, 'ld) Graph" where
  "detach nodeId l g =
     (case getNode g nodeId of
        None \<Rightarrow> g
      | Some n \<Rightarrow>
          (case node_links (node_heap g n) of
             None \<Rightarrow> g
           | Some ls \<Rightarrow>
               g\<lparr>node_heap := (node_heap g)
                   (n := (node_heap g n)\<lparr>node_links := Some (removeAll l ls)\<rparr>)\<rparr>))"

text \<open>
  \<^verbatim>\<open>removeLinkInstance(link)\<close> for a link object; the guard looks the link's \<^emph>\<open>id\<close> up
  in the store, the two deletions from the endpoint sets take the \<^emph>\<open>object\<close>.
\<close>

definition removeLinkInstance ::
  "link_ref \<Rightarrow> ('nd, 'ld) Graph \<Rightarrow> bool \<times> ('nd, 'ld) Graph" where
  "removeLinkInstance l g =
     (if map_of (links g) (link_id (link_heap g l)) = None then (False, g)
      else
        (let g1 = enterModification g;
             g2 = g1\<lparr>links := AList.delete (link_id (link_heap g1 l)) (links g1)\<rparr>;
             g3 = detach (link_fromId (link_heap g2 l)) l g2;
             g4 = detach (link_toId (link_heap g3 l)) l g3;
             g5 = recordLinkChange l Remove g4
         in (True, exitModification g5)))"

text \<open>
  \<^verbatim>\<open>removeNode\<close>. The callback of \<^verbatim>\<open>prevLinks.forEach\<close> deletes from the set only
  the element it is called with, so the iteration visits the elements the set had at the
  start, in order.
\<close>

definition removeNode :: "nodeid \<Rightarrow> ('nd, 'ld) Graph \<Rightarrow> bool \<times> ('nd, 'ld) Graph" where
  "removeNode nodeId g =
     (case getNode g nodeId of
        None \<Rightarrow> (False, g)
      | Some n \<Rightarrow>
          (let g1 = enterModification g;
               g2 = (case node_links (node_heap g1 n) of
                       None \<Rightarrow> g1
                     | Some prevLinks \<Rightarrow>
                         (let h = fold (\<lambda>l a. snd (removeLinkInstance l a)) prevLinks g1
                          in h\<lparr>node_heap := (node_heap h)
                                 (n := (node_heap h n)\<lparr>node_links := None\<rparr>)\<rparr>));
               g3 = g2\<lparr>nodes := AList.delete nodeId (nodes g2)\<rparr>;
               g4 = recordNodeChange n Remove g3
           in (True, exitModification g4)))"

definition getLink :: "('nd, 'ld) Graph \<Rightarrow> nodeid \<Rightarrow> nodeid \<Rightarrow> link_ref option" where
  "getLink g fromNodeId toNodeId =
     (if falsy fromNodeId \<or> falsy toNodeId then None
      else map_of (links g) (makeId fromNodeId toNodeId))"

definition createSingleLink ::
  "nodeid \<Rightarrow> nodeid \<Rightarrow> 'ld option \<Rightarrow> ('nd, 'ld) Graph \<Rightarrow> link_ref \<times> ('nd, 'ld) Graph" where
  "createSingleLink fromId toId d g =
     (let linkId = makeId fromId toId
      in case map_of (links g) linkId of
           Some prevLink \<Rightarrow>
             (prevLink,
              g\<lparr>link_heap := (link_heap g)(prevLink := (link_heap g prevLink)\<lparr>link_data := d\<rparr>)\<rparr>)
         | None \<Rightarrow> Link_new fromId toId d (Some linkId) g)"

definition createUniqueLink ::
  "nodeid \<Rightarrow> nodeid \<Rightarrow> 'ld option \<Rightarrow> ('nd, 'ld) Graph \<Rightarrow> link_ref \<times> ('nd, 'ld) Graph" where
  "createUniqueLink fromId toId d g =
     (let linkId = makeId fromId toId;
          isMultiEdge = (multiEdges g linkId \<noteq> None)
      in if isMultiEdge \<or> getLink g fromId toId \<noteq> None
         then
           (let c = (case multiEdges g linkId of None \<Rightarrow> 0 | Some k \<Rightarrow> k) + 1;
                g1 = g\<lparr>multiEdges := (multiEdges g)(linkId := Some c)\<rparr>;
                suffix = CHR ''@'' # nat_str c
            in Link_new fromId toId d
                 (Some (makeId_str (id_str fromId @ suffix) (id_str toId @ suffix))) g1)
         else Link_new fromId toId d (Some linkId) g)"

definition createLink ::
  "nodeid \<Rightarrow> nodeid \<Rightarrow> 'ld option \<Rightarrow> ('nd, 'ld) Graph \<Rightarrow> link_ref \<times> ('nd, 'ld) Graph" where
  "createLink fromId toId d g =
     (if multigraph g then createUniqueLink fromId toId d g
      else createSingleLink fromId toId d g)"

text \<open>\<^verbatim>\<open>Node.addLink\<close>: \<^verbatim>\<open>Set.add\<close>, or a new one-element set.\<close>

definition Node_addLink :: "node_ref \<Rightarrow> link_ref \<Rightarrow> ('nd, 'ld) Graph \<Rightarrow> ('nd, 'ld) Graph" where
  "Node_addLink n l g =
     g\<lparr>node_heap := (node_heap g)
         (n := (node_heap g n)
            \<lparr>node_links :=
               (case node_links (node_heap g n) of
                  Some ls \<Rightarrow> Some (if l \<in> set ls then ls else ls @ [l])
                | None \<Rightarrow> Some [l])\<rparr>)\<rparr>"

definition addLink ::
  "nodeid \<Rightarrow> nodeid \<Rightarrow> 'ld option \<Rightarrow> ('nd, 'ld) Graph \<Rightarrow> link_ref \<times> ('nd, 'ld) Graph" where
  "addLink fromId toId d g =
     (let g1 = enterModification g;
          (fromNode, g2) = (case getNode g1 fromId of
                              Some n \<Rightarrow> (n, g1) | None \<Rightarrow> addNode fromId None g1);
          (toNode, g3) = (case getNode g2 toId of
                            Some n \<Rightarrow> (n, g2) | None \<Rightarrow> addNode toId None g2);
          (link, g4) = createLink fromId toId d g3;
          isUpdate = (map_of (links g4) (link_id (link_heap g4 link)) \<noteq> None);
          g5 = g4\<lparr>links := AList.update (link_id (link_heap g4 link)) link (links g4)\<rparr>;
          g6 = Node_addLink fromNode link g5;
          g7 = (if fromId \<noteq> toId then Node_addLink toNode link g6 else g6);
          g8 = recordLinkChange link (if isUpdate then Update else Add) g7
      in (link, exitModification g8))"

datatype graph_error = Unknown_link | Invalid_link | Invalid_node_state

text \<open>The two overloads of \<^verbatim>\<open>removeLink\<close>.\<close>

datatype link_arg = ByLink link_ref | ByEndpoints nodeid nodeid

text \<open>
  \<^verbatim>\<open>const link = (fromNodeIdOrLink instanceof Link) ? fromNodeIdOrLink : this.getLink(...)\<close>
\<close>

definition resolveLink :: "('nd, 'ld) Graph \<Rightarrow> link_arg \<Rightarrow> link_ref option" where
  "resolveLink g arg =
     (case arg of
        ByLink l \<Rightarrow> Some l
      | ByEndpoints fromNodeId toNodeId \<Rightarrow> getLink g fromNodeId toNodeId)"

definition removeLink ::
  "link_arg \<Rightarrow> ('nd, 'ld) Graph \<Rightarrow> graph_error + bool \<times> ('nd, 'ld) Graph" where
  "removeLink arg g =
     (case resolveLink g arg of
        None \<Rightarrow> Inl Unknown_link
      | Some link \<Rightarrow> Inr (removeLinkInstance link g))"

text \<open>
  \<^verbatim>\<open>linkedNodes(nodeId, oriented)\<close> is a generator of triples
  \<^verbatim>\<open>[node, link, otherNode]\<close>: the node asked for first, the neighbour last. Its run
  is the list of the triples it yields and, when it throws, the error that ends it.
\<close>

type_synonym LinkedNodes = "node_ref \<times> link_ref \<times> node_ref"

fun nonOrientedLinks ::
  "('nd, 'ld) Graph \<Rightarrow> node_ref \<Rightarrow> link_ref list \<Rightarrow> LinkedNodes list \<times> graph_error option" where
  "nonOrientedLinks g n [] = ([], None)"
| "nonOrientedLinks g n (link # rest) =
     (let linkedNodeId =
            (if link_fromId (link_heap g link) = node_id (node_heap g n)
             then link_toId (link_heap g link) else link_fromId (link_heap g link))
      in case getNode g linkedNodeId of
           None \<Rightarrow> ([], Some Invalid_link)
         | Some otherNode \<Rightarrow>
             (let (ys, e) = nonOrientedLinks g n rest in ((n, link, otherNode) # ys, e)))"

fun orientedLinks ::
  "('nd, 'ld) Graph \<Rightarrow> node_ref \<Rightarrow> link_ref list \<Rightarrow> LinkedNodes list \<times> graph_error option" where
  "orientedLinks g n [] = ([], None)"
| "orientedLinks g n (link # rest) =
     (if link_fromId (link_heap g link) = node_id (node_heap g n)
      then (case getNode g (link_toId (link_heap g link)) of
              None \<Rightarrow> ([], Some Invalid_node_state)
            | Some otherNode \<Rightarrow>
                (let (ys, e) = orientedLinks g n rest in ((n, link, otherNode) # ys, e)))
      else orientedLinks g n rest)"

definition linkedNodes ::
  "('nd, 'ld) Graph \<Rightarrow> nodeid \<Rightarrow> bool \<Rightarrow> LinkedNodes list \<times> graph_error option" where
  "linkedNodes g nodeId oriented =
     (case getNode g nodeId of
        None \<Rightarrow> ([], None)
      | Some n \<Rightarrow>
          (case node_links (node_heap g n) of
             None \<Rightarrow> ([], None)
           | Some ls \<Rightarrow> if oriented then orientedLinks g n ls else nonOrientedLinks g n ls))"

text \<open>
  \<^verbatim>\<open>clear\<close> iterates over the live \<^verbatim>\<open>Map\<close> of nodes while \<^verbatim>\<open>removeNode\<close>
  deletes from it: an entry deleted before the iteration reaches it is not visited.
\<close>

fun clear_loop :: "nodeid list \<Rightarrow> ('nd, 'ld) Graph \<Rightarrow> ('nd, 'ld) Graph" where
  "clear_loop [] g = g"
| "clear_loop (k # ks) g =
     (case map_of (nodes g) k of
        None \<Rightarrow> clear_loop ks g
      | Some n \<Rightarrow> clear_loop ks (snd (removeNode (node_id (node_heap g n)) g)))"

definition clear :: "('nd, 'ld) Graph \<Rightarrow> ('nd, 'ld) Graph" where
  "clear g =
     (let g1 = enterModification g
      in exitModification (clear_loop (map fst (nodes g1)) g1))"

subsection \<open>Public mutating calls and the state they leave\<close>

datatype ('nd, 'ld) call =
    AddNode nodeid "'nd option"
  | AddLink nodeid nodeid "'ld option"
  | RemoveNode nodeid
  | RemoveLink link_arg
  | Clear

text \<open>The store after a call; \<^verbatim>\<open>removeLink\<close> throws before it changes anything.\<close>

fun exec :: "('nd, 'ld) call \<Rightarrow> ('nd, 'ld) Graph \<Rightarrow> ('nd, 'ld) Graph" where
  "exec (AddNode nodeId d) g = snd (addNode nodeId d g)"
| "exec (AddLink fromId toId d) g = snd (addLink fromId toId d g)"
| "exec (RemoveNode nodeId) g = snd (removeNode nodeId g)"
| "exec (RemoveLink arg) g = (case removeLink arg g of Inl e \<Rightarrow> g | Inr r \<Rightarrow> snd r)"
| "exec Clear g = clear g"

text \<open>Between two public calls no modification is open and no change is pending.\<close>

definition idle :: "('nd, 'ld) Graph \<Rightarrow> bool" where
  "idle g = (suspendEvents g = 0 \<and> changes g = [])"

text \<open>
  The changes a call records when it runs inside an open modification, where nothing is
  delivered: the constituent changes of the call, in the order they occur.
\<close>

definition batch_of :: "('nd, 'ld) call \<Rightarrow> ('nd, 'ld) Graph \<Rightarrow> Change list" where
  "batch_of c g = changes (exec c (g\<lparr>suspendEvents := 1\<rparr>))"

subsection \<open>The invariants of the store\<close>

text \<open>The elements of a node's set of links, none when the set is \<^verbatim>\<open>undefined\<close>.\<close>

definition links_list :: "('nd, 'ld) Graph \<Rightarrow> node_ref \<Rightarrow> link_ref list" where
  "links_list g n = (case node_links (node_heap g n) of None \<Rightarrow> [] | Some ls \<Rightarrow> ls)"

text \<open>
  The graph invariants of the data model: the keys of the node map are distinct and a node
  is stored under its own id; the set of a node is duplicate free, each of its links is the
  object the store holds under the link's id and names the node as an endpoint; and the
  inverse index is complete (both endpoints of such a link exist and hold the link in
  their sets).
\<close>

definition graph_inv :: "('nd, 'ld) Graph \<Rightarrow> bool" where
  "graph_inv g =
     (distinct (map fst (nodes g)) \<and>
      (\<forall>(k, n) \<in> set (nodes g).
         node_id (node_heap g n) = k \<and>
         (\<forall>l \<in> set (links_list g n).
            map_of (links g) (link_id (link_heap g l)) = Some l \<and>
            (link_fromId (link_heap g l) = k \<or> link_toId (link_heap g l) = k) \<and>
            (\<forall>e \<in> {link_fromId (link_heap g l), link_toId (link_heap g l)}.
               \<exists>m \<in> set (nodes g). fst m = e \<and> l \<in> set (links_list g (snd m)))) \<and>
         distinct (links_list g n)))"

text \<open>
  The part of the invariants that concerns the node map alone: every node of the map has
  been allocated and is stored under its own id.
\<close>

definition own_ids :: "('nd, 'ld) Graph \<Rightarrow> bool" where
  "own_ids g = (\<forall>(k, n) \<in> set (nodes g). n < next_node g \<and> node_id (node_heap g n) = k)"

section \<open>Numbers of the search (astar.ts, pool.ts)\<close>

text \<open>
  The scores are JavaScript numbers. The model keeps the integers and the three special
  values the code can meet (\<^verbatim>\<open>Infinity\<close> is the initial score); rounding of
  fractions is not modelled.
\<close>

datatype jsnum = NaN | NegInf | Fin int | PosInf

fun js_add :: "jsnum \<Rightarrow> jsnum \<Rightarrow> jsnum" where
  "js_add NaN y = NaN"
| "js_add x NaN = NaN"
| "js_add PosInf NegInf = NaN"
| "js_add NegInf PosInf = NaN"
| "js_add PosInf y = PosInf"
| "js_add x PosInf = PosInf"
| "js_add NegInf y = NegInf"
| "js_add x NegInf = NegInf"
| "js_add (Fin a) (Fin b) = Fin (a + b)"

fun js_neg :: "jsnum \<Rightarrow> jsnum" where
  "js_neg NaN = NaN"
| "js_neg NegInf = PosInf"
| "js_neg PosInf = NegInf"
| "js_neg (Fin a) = Fin (- a)"

definition js_sub :: "jsnum \<Rightarrow> jsnum \<Rightarrow> jsnum" where
  "js_sub x y = js_add x (js_neg y)"

fun js_lt :: "jsnum \<Rightarrow> jsnum \<Rightarrow> bool" where
  "js_lt NaN y = False"
| "js_lt x NaN = False"
| "js_lt x NegInf = False"
| "js_lt NegInf y = True"
| "js_lt PosInf y = False"
| "js_lt x PosInf = True"
| "js_lt (Fin a) (Fin b) = (a < b)"

fun js_ge :: "jsnum \<Rightarrow> jsnum \<Rightarrow> bool" where
  "js_ge NaN y = False"
| "js_ge x NaN = False"
| "js_ge x y = (\<not> js_lt x y)"

section \<open>The pool of search states (pool.ts)\<close>

text \<open>
  A \<^verbatim>\<open>NodeSearchState\<close> is created by \<^verbatim>\<open>newState\<close> only, stored at one index of
  \<^verbatim>\<open>#nodeCache\<close> and never moved: the index is its reference. \<open>ss_parent\<close> is such a
  reference or \<^verbatim>\<open>null\<close>. The array is a map from indices, \<open>None\<close> where
  \<^verbatim>\<open>nodeCache[i]\<close> is \<^verbatim>\<open>undefined\<close>.
\<close>

type_synonym state_ref = nat

record NodeSearchState =
  ss_node :: node_ref
  ss_parent :: "state_ref option"
  ss_closed :: bool
  ss_open :: int
  ss_distanceToSource :: jsnum
  ss_fScore :: jsnum
  ss_heapIndex :: int

definition NodeSearchState_new :: "node_ref \<Rightarrow> NodeSearchState" where
  "NodeSearchState_new n =
     \<lparr>ss_node = n, ss_parent = None, ss_closed = False, ss_open = 0,
      ss_distanceToSource = PosInf, ss_fScore = PosInf, ss_heapIndex = - 1\<rparr>"

record StatePool =
  currentInCache :: nat
  nodeCache :: "nat \<Rightarrow> NodeSearchState option"

definition StatePool_new :: StatePool where
  "StatePool_new = \<lparr>currentInCache = 0, nodeCache = (\<lambda>_. None)\<rparr>"

definition reset :: "StatePool \<Rightarrow> StatePool" where
  "reset p = p\<lparr>currentInCache := 0\<rparr>"

definition newState :: "node_ref \<Rightarrow> StatePool \<Rightarrow> state_ref \<times> StatePool" where
  "newState n p =
     (let i = currentInCache p;
          p1 = (case nodeCache p i of
                  Some cached \<Rightarrow>
                    p\<lparr>nodeCache := (nodeCache p)
                        (i := Some (cached\<lparr>ss_node := n, ss_parent := None, ss_closed := False,
                                           ss_open := 0, ss_distanceToSource := PosInf,
                                           ss_fScore := PosInf, ss_heapIndex := - 1\<rparr>))\<rparr>
                | None \<Rightarrow> p\<lparr>nodeCache := (nodeCache p)(i := Some (NodeSearchState_new n))\<rparr>)
      in (i, p1\<lparr>currentInCache := i + 1\<rparr>))"

text \<open>Reading a field through a reference, and assigning to fields through one.\<close>

definition deref :: "StatePool \<Rightarrow> state_ref \<Rightarrow> NodeSearchState" where
  "deref p s = the (nodeCache p s)"

definition assign ::
  "state_ref \<Rightarrow> (NodeSearchState \<Rightarrow> NodeSearchState) \<Rightarrow> StatePool \<Rightarrow> StatePool" where
  "assign s f p = p\<lparr>nodeCache := (nodeCache p)(s := Some (f (deref p s)))\<rparr>"

section \<open>The search (astar.ts)\<close>

record AstarOptions =
  opt_blocked :: "node_ref \<Rightarrow> node_ref \<Rightarrow> link_ref \<Rightarrow> bool"
  opt_blockedPath :: "StatePool \<Rightarrow> state_ref \<Rightarrow> state_ref \<Rightarrow> link_ref \<Rightarrow> bool"
  opt_heuristic :: "node_ref \<Rightarrow> node_ref \<Rightarrow> jsnum"
  opt_distance :: "node_ref \<Rightarrow> node_ref \<Rightarrow> link_ref \<Rightarrow> jsnum"
  opt_compare :: "NodeSearchState \<Rightarrow> NodeSearchState \<Rightarrow> jsnum"
  opt_oriented :: bool

text \<open>The defaults the constructor of \<^verbatim>\<open>Astar\<close> fills in.\<close>

definition default_options :: AstarOptions where
  "default_options =
     \<lparr>opt_blocked = (\<lambda>a b l. False), opt_blockedPath = (\<lambda>p a b l. False),
      opt_heuristic = (\<lambda>a b. Fin 0), opt_distance = (\<lambda>a b l. Fin 1),
      opt_compare = (\<lambda>a b. js_sub (ss_fScore a) (ss_fScore b)), opt_oriented = False\<rparr>"

text \<open>
  \<^verbatim>\<open>BinaryHeap\<close> comes from the package \<^verbatim>\<open>@std/data-structures\<close>, outside the
  repository. Its contract is what the search uses: \<^verbatim>\<open>push\<close> adds an element,
  \<^verbatim>\<open>pop\<close> removes and returns an element that no other one precedes under
  \<^verbatim>\<open>compare(a, b) < 0\<close>, and \<^verbatim>\<open>undefined\<close> when empty. The elements are references,
  compared through the states they point to at the time of the call.
\<close>

definition heap_push :: "state_ref list \<Rightarrow> state_ref \<Rightarrow> state_ref list" where
  "heap_push h x = h @ [x]"

fun heap_least :: "(state_ref \<Rightarrow> state_ref \<Rightarrow> jsnum) \<Rightarrow> state_ref \<Rightarrow> state_ref list \<Rightarrow> state_ref" where
  "heap_least cmp best [] = best"
| "heap_least cmp best (x # xs) =
     heap_least cmp (if js_lt (cmp x best) (Fin 0) then x else best) xs"

definition heap_pop ::
  "(state_ref \<Rightarrow> state_ref \<Rightarrow> jsnum) \<Rightarrow> state_ref list \<Rightarrow> (state_ref \<times> state_ref list) option" where
  "heap_pop cmp h =
     (case h of
        [] \<Rightarrow> None
      | x # xs \<Rightarrow> (let m = heap_least cmp x xs in Some (m, remove1 m h)))"

text \<open>The local variables of one \<^verbatim>\<open>find\<close> call, with the pool of the engine.\<close>

record search =
  s_pool :: StatePool
  s_nodeState :: "nodeid \<Rightarrow> state_ref option"
  s_openSet :: "state_ref list"

text \<open>
  The body of the \<^verbatim>\<open>for (const [otherNode, link] of linkedNodes(...))\<close> loop, for one
  triple of the generator: the pattern binds the first two components.
  (The \<^verbatim>\<open>console.log\<close> of the \<^verbatim>\<open>blockedPath\<close> branch writes to the console only.)
\<close>

definition visit ::
  "AstarOptions \<Rightarrow> ('nd, 'ld) Graph \<Rightarrow> node_ref \<Rightarrow> state_ref \<Rightarrow> LinkedNodes \<Rightarrow> search \<Rightarrow> search" where
  "visit opts g to cameFrom t s =
     (case t of (otherNode, link, third) \<Rightarrow>
        (let otherId = node_id (node_heap g otherNode);
             (otherSearchState, s1) =
               (case s_nodeState s otherId of
                  Some x \<Rightarrow> (x, s)
                | None \<Rightarrow>
                    (let (x, p) = newState otherNode (s_pool s)
                     in (x, s\<lparr>s_pool := p, s_nodeState := (s_nodeState s)(otherId := Some x)\<rparr>)))
         in if ss_closed (deref (s_pool s1) otherSearchState) then s1
            else if opt_blocked opts otherNode (ss_node (deref (s_pool s1) cameFrom)) link then s1
            else if opt_blockedPath opts (s_pool s1) cameFrom otherSearchState link then s1
            else
              (let tentativeDistance =
                     js_add (ss_distanceToSource (deref (s_pool s1) cameFrom))
                       (opt_distance opts otherNode (ss_node (deref (s_pool s1) cameFrom)) link)
               in if js_ge tentativeDistance
                       (ss_distanceToSource (deref (s_pool s1) otherSearchState))
                  then s1
                  else
                    s1\<lparr>s_pool :=
                         assign otherSearchState
                           (\<lambda>x. x\<lparr>ss_parent := Some cameFrom,
                                  ss_distanceToSource := tentativeDistance,
                                  ss_fScore := js_add tentativeDistance
                                                 (opt_heuristic opts (ss_node x) to)\<rparr>)
                           (s_pool s1),
                       s_openSet := heap_push (s_openSet s1) otherSearchState\<rparr>)))"

text \<open>The whole \<^verbatim>\<open>for\<close> loop over the neighbours of \<^verbatim>\<open>cameFrom.node\<close>.\<close>

definition expand ::
  "AstarOptions \<Rightarrow> ('nd, 'ld) Graph \<Rightarrow> node_ref \<Rightarrow> state_ref \<Rightarrow> search
     \<Rightarrow> graph_error \<times> search + search" where
  "expand opts g to cameFrom s =
     (let (ts, err) = linkedNodes g (node_id (node_heap g (ss_node (deref (s_pool s) cameFrom))))
                        (opt_oriented opts);
          s1 = fold (visit opts g to cameFrom) ts s
      in case err of None \<Rightarrow> Inr s1 | Some e \<Rightarrow> Inl (e, s1))"

definition goalReached :: "NodeSearchState \<Rightarrow> node_ref \<Rightarrow> bool" where
  "goalReached searchState targetNode = (ss_node searchState = targetNode)"

text \<open>The \<^verbatim>\<open>while (parent)\<close> loop of \<^verbatim>\<open>reconstructPath\<close>.\<close>

partial_function (option) walk ::
  "StatePool \<Rightarrow> state_ref option \<Rightarrow> node_ref list \<Rightarrow> node_ref list option" where
  "walk p parent path =
     (case parent of
        None \<Rightarrow> Some path
      | Some x \<Rightarrow> walk p (ss_parent (deref p x)) (path @ [ss_node (deref p x)]))"

definition reconstructPath :: "StatePool \<Rightarrow> state_ref \<Rightarrow> node_ref list option" where
  "reconstructPath p searchState =
     walk p (ss_parent (deref p searchState)) [ss_node (deref p searchState)]"

datatype find_result = NO_PATH | Path "node_ref list"

datatype find_error = Not_defined nodeid | Graph_error graph_error

text \<open>
  The \<^verbatim>\<open>while (openSet.length > 0)\<close> loop. \<open>None\<close> is a run that never returns; a
  returning run gives the error thrown or the value returned, and the pool it leaves.
\<close>

partial_function (option) search_loop ::
  "AstarOptions \<Rightarrow> ('nd, 'ld) Graph \<Rightarrow> node_ref \<Rightarrow> search
     \<Rightarrow> ((find_error + find_result) \<times> StatePool) option" where
  "search_loop opts g to s =
     (case heap_pop (\<lambda>a b. opt_compare opts (deref (s_pool s) a) (deref (s_pool s) b))
             (s_openSet s) of
        None \<Rightarrow> Some (Inr NO_PATH, s_pool s)
      | Some (cameFrom, rest) \<Rightarrow>
          if goalReached (deref (s_pool s) cameFrom) to
          then (case reconstructPath (s_pool s) cameFrom of
                  None \<Rightarrow> None
                | Some path \<Rightarrow> Some (Inr (Path path), s_pool s))
          else
            (case expand opts g to cameFrom
                    (s\<lparr>s_openSet := rest,
                       s_pool := assign cameFrom (\<lambda>x. x\<lparr>ss_closed := True\<rparr>) (s_pool s)\<rparr>) of
               Inl (e, s2) \<Rightarrow> Some (Inl (Graph_error e), s_pool s2)
             | Inr s2 \<Rightarrow> search_loop opts g to s2))"

text \<open>\<^verbatim>\<open>Astar.find(fromId, toId)\<close> of an engine with options, graph and pool.\<close>

definition Astar_find ::
  "AstarOptions \<Rightarrow> ('nd, 'ld) Graph \<Rightarrow> StatePool \<Rightarrow> nodeid \<Rightarrow> nodeid
     \<Rightarrow> ((find_error + find_result) \<times> StatePool) option" where
  "Astar_find opts g p fromId toId =
     (case getNode g fromId of
        None \<Rightarrow> Some (Inl (Not_defined fromId), p)
      | Some from \<Rightarrow>
          (case getNode g toId of
             None \<Rightarrow> Some (Inl (Not_defined toId), p)
           | Some to \<Rightarrow>
               (let p0 = reset p;
                    (startNode, p1) = newState from p0;
                    nodeState = (\<lambda>_. None)(fromId := Some startNode);
                    p2 = assign startNode (\<lambda>x. x\<lparr>ss_fScore := opt_heuristic opts from to\<rparr>) p1;
                    p3 = assign startNode (\<lambda>x. x\<lparr>ss_distanceToSource := Fin 0\<rparr>) p2;
                    openSet = heap_push [] startNode;
                    p4 = assign startNode (\<lambda>x. x\<lparr>ss_open := 1\<rparr>) p3
                in search_loop opts g to
                     \<lparr>s_pool = p4, s_nodeState = nodeState, s_openSet = openSet\<rparr>)))"

text \<open>
  A path between two identifiers, as the search can follow it: no step, or a step to a
  neighbour the enumeration of the first node yields (its third component), then a path on.
\<close>

inductive path_exists :: "('nd, 'ld) Graph \<Rightarrow> bool \<Rightarrow> nodeid \<Rightarrow> nodeid \<Rightarrow> bool"
  for g :: "('nd, 'ld) Graph" and oriented :: bool where
  here: "path_exists g oriented a a"
| step: "(n, l, m) \<in> set (fst (linkedNodes g a oriented)) \<Longrightarrow>
         path_exists g oriented (node_id (node_heap g m)) b \<Longrightarrow> path_exists g oriented a b"

section \<open>Stores used as examples\<close>

text \<open>The stores the tests build: one link, a chain, a payload, an endpoint with id 0.\<close>

definition store_1_2 :: "(string, string) Graph" where
  "store_1_2 = snd (addLink (NumId 1) (NumId 2) None (on_changed (Graph_new False)))"

definition store_1_2_3 :: "(string, string) Graph" where
  "store_1_2_3 = snd (addLink (NumId 2) (NumId 3) None store_1_2)"

definition store_hello :: "(string, string) Graph" where
  "store_hello = on_changed (snd (addNode (NumId 1) (Some ''hello'') (Graph_new False)))"

definition store_0_1 :: "(string, string) Graph" where
  "store_0_1 = snd (addLink (NumId 0) (NumId 1) None (Graph_new False))"

text \<open>
  A multigraph with a listener, and the link from node 0 to node 1 added twice; and the same
  graph after \<^verbatim>\<open>removeNode(0)\<close> and \<^verbatim>\<open>addNode(2)\<close>.
\<close>

definition store_multi_0_1 :: "(string, string) Graph" where
  "store_multi_0_1 =
     snd (addLink (NumId 0) (NumId 1) None
       (snd (addLink (NumId 0) (NumId 1) None (on_changed (Graph_new True)))))"

definition store_multi_removed :: "(string, string) Graph" where
  "store_multi_removed =
     snd (addNode (NumId 2) None (snd (removeNode (NumId 0) store_multi_0_1)))"


definition store_two_nodes :: "(string, string) Graph" where
  "store_two_nodes = snd (addNode (NumId 2) None (snd (addNode (NumId 1) None (Graph_new False))))"

text \<open>A pool whose first slot still holds what an earlier search wrote into it.\<close>

definition pool_used :: StatePool where
  "pool_used =
     \<lparr>currentInCache = 1,
      nodeCache = (\<lambda>_. None)
        (0 := Some \<lparr>ss_node = 5, ss_parent = Some 0, ss_closed = True, ss_open = 1,
                    ss_distanceToSource = Fin 7, ss_fScore = Fin 9, ss_heapIndex = 3\<rparr>)\<rparr>"

text \<open>
  A search in progress: state 2 was reached through state 3 at distance 2, and state 1, at
  distance 1, is being expanded towards the node of state 2.
\<close>

definition search_tie :: search where
  "search_tie =
     \<lparr>s_pool =
        \<lparr>currentInCache = 4,
         nodeCache = (\<lambda>_. None)
           (0 := Some \<lparr>ss_node = 0, ss_parent = None, ss_closed = True, ss_open = 1,
                       ss_distanceToSource = Fin 0, ss_fScore = Fin 0, ss_heapIndex = - 1\<rparr>,
            1 := Some \<lparr>ss_node = 1, ss_parent = Some 0, ss_closed = True, ss_open = 0,
                       ss_distanceToSource = Fin 1, ss_fScore = Fin 1, ss_heapIndex = - 1\<rparr>,
            2 := Some \<lparr>ss_node = 2, ss_parent = Some 3, ss_closed = False, ss_open = 0,
                       ss_distanceToSource = Fin 2, ss_fScore = Fin 2, ss_heapIndex = - 1\<rparr>,
            3 := Some \<lparr>ss_node = 3, ss_parent = Some 0, ss_closed = False, ss_open = 0,
                       ss_distanceToSource = Fin 1, ss_fScore = Fin 1, ss_heapIndex = - 1\<rparr>)\<rparr>,
      s_nodeState = (\<lambda>_. None)
        (NumId 1 := Some 0, NumId 2 := Some 1, NumId 3 := Some 2, NumId 4 := Some 3),
      s_openSet = [3, 2]\<rparr>"

section \<open>Notions used in the proofs\<close>

text \<open>The \<^verbatim>\<open>forEach\<close> of \<^verbatim>\<open>removeNode\<close>, by name.\<close>

abbreviation removeAllLinks :: "link_ref list \<Rightarrow> ('nd, 'ld) Graph \<Rightarrow> ('nd, 'ld) Graph" where
  "removeAllLinks ls g \<equiv> fold (\<lambda>l a. snd (removeLinkInstance l a)) ls g"

text \<open>Links that are pairwise different and each the object the store holds under its id.\<close>

definition stored :: "('nd, 'ld) Graph \<Rightarrow> link_ref list \<Rightarrow> bool" where
  "stored g ls = (distinct ls \<and> (\<forall>l \<in> set ls. map_of (links g) (link_id (link_heap g l)) = Some l))"

text \<open>A body run between \<^verbatim>\<open>#enterModification\<close> and \<^verbatim>\<open>#exitModification\<close>.\<close>

definition bracket ::
  "(('nd, 'ld) Graph \<Rightarrow> 'a \<times> ('nd, 'ld) Graph) \<Rightarrow> ('nd, 'ld) Graph \<Rightarrow> 'a \<times> ('nd, 'ld) Graph" where
  "bracket body g =
     (fst (body (enterModification g)), exitModification (snd (body (enterModification g))))"

text \<open>An operation that, inside an open modification, leaves the counter, the listeners' log
  and the subscription alone and does not depend on the value of the counter.\<close>

definition nestable :: "(('nd, 'ld) Graph \<Rightarrow> 'a \<times> ('nd, 'ld) Graph) \<Rightarrow> bool" where
  "nestable f =
     (\<forall>g. 0 < suspendEvents g \<longrightarrow>
        suspendEvents (snd (f g)) = suspendEvents g \<and>
        emitted (snd (f g)) = emitted g \<and>
        listening (snd (f g)) = listening g \<and>
        (\<forall>k > 0. f (g\<lparr>suspendEvents := k\<rparr>) = (fst (f g), (snd (f g))\<lparr>suspendEvents := k\<rparr>)))"

text \<open>The bodies of the public operations, between enter and exit.\<close>

definition addNode_body ::
  "nodeid \<Rightarrow> 'nd option \<Rightarrow> ('nd, 'ld) Graph \<Rightarrow> node_ref \<times> ('nd, 'ld) Graph" where
  "addNode_body nodeId d g1 =
     (case getNode g1 nodeId of
        Some n \<Rightarrow>
          (n, recordNodeChange n Update
                (g1\<lparr>node_heap := (node_heap g1)(n := (node_heap g1 n)\<lparr>node_data := d\<rparr>)\<rparr>))
      | None \<Rightarrow>
          (next_node g1,
           (recordNodeChange (next_node g1) Add
              (g1\<lparr>node_heap := (node_heap g1)
                    (next_node g1 := \<lparr>node_id = nodeId, node_links = None, node_data = d\<rparr>),
                  next_node := Suc (next_node g1)\<rparr>))
           \<lparr>nodes := AList.update nodeId (next_node g1) (nodes g1)\<rparr>))"

definition rli_body :: "link_ref \<Rightarrow> ('nd, 'ld) Graph \<Rightarrow> bool \<times> ('nd, 'ld) Graph" where
  "rli_body l g1 =
     (True, recordLinkChange l Remove
        (detach (link_toId (link_heap g1 l)) l
           (detach (link_fromId (link_heap g1 l)) l
              (g1\<lparr>links := AList.delete (link_id (link_heap g1 l)) (links g1)\<rparr>))))"

definition removeNode_body ::
  "nodeid \<Rightarrow> node_ref \<Rightarrow> ('nd, 'ld) Graph \<Rightarrow> bool \<times> ('nd, 'ld) Graph" where
  "removeNode_body nodeId n g1 =
     (True, recordNodeChange n Remove
        ((removeAllLinks (links_list g1 n) g1)
           \<lparr>node_heap := (node_heap (removeAllLinks (links_list g1 n) g1))
              (n := (node_heap (removeAllLinks (links_list g1 n) g1) n)\<lparr>node_links := None\<rparr>),
            nodes := AList.delete nodeId (nodes g1)\<rparr>))"

definition clear_body :: "('nd, 'ld) Graph \<Rightarrow> unit \<times> ('nd, 'ld) Graph" where
  "clear_body g1 = ((), clear_loop (map fst (nodes g1)) g1)"

text \<open>\<^verbatim>\<open>this.getNode(id) ?? this.addNode(id)\<close>\<close>

definition endpoint :: "nodeid \<Rightarrow> ('nd, 'ld) Graph \<Rightarrow> node_ref \<times> ('nd, 'ld) Graph" where
  "endpoint nodeId g = (case getNode g nodeId of Some n \<Rightarrow> (n, g) | None \<Rightarrow> addNode nodeId None g)"

text \<open>The part of \<^verbatim>\<open>addLink\<close> after \<^verbatim>\<open>createLink\<close>.\<close>

definition attach ::
  "nodeid \<Rightarrow> nodeid \<Rightarrow> node_ref \<Rightarrow> node_ref \<Rightarrow> link_ref \<Rightarrow> ('nd, 'ld) Graph
     \<Rightarrow> link_ref \<times> ('nd, 'ld) Graph" where
  "attach fromId toId fromNode toNode link g4 =
     (let isUpdate = (map_of (links g4) (link_id (link_heap g4 link)) \<noteq> None);
          g5 = g4\<lparr>links := AList.update (link_id (link_heap g4 link)) link (links g4)\<rparr>;
          g6 = Node_addLink fromNode link g5;
          g7 = (if fromId \<noteq> toId then Node_addLink toNode link g6 else g6);
          g8 = recordLinkChange link (if isUpdate then Update else Add) g7
      in (link, g8))"

definition addLink_body ::
  "nodeid \<Rightarrow> nodeid \<Rightarrow> 'ld option \<Rightarrow> ('nd, 'ld) Graph \<Rightarrow> link_ref \<times> ('nd, 'ld) Graph" where
  "addLink_body fromId toId d g1 =
     (let (fromNode, g2) = endpoint fromId g1;
          (toNode, g3) = endpoint toId g2;
          (link, g4) = createLink fromId toId d g3
      in attach fromId toId fromNode toNode link g4)"

text \<open>The pool right after the start state of a search has been set up.\<close>

definition start_pool :: "AstarOptions \<Rightarrow> StatePool \<Rightarrow> node_ref \<Rightarrow> node_ref \<Rightarrow> StatePool" where
  "start_pool opts p from to =
     p\<lparr>currentInCache := 1,
       nodeCache := (nodeCache p)
         (0 := Some ((NodeSearchState_new from)
                 \<lparr>ss_fScore := opt_heuristic opts from to, ss_distanceToSource := Fin 0,
                  ss_open := 1\<rparr>))\<rparr>"

section \<open>Properties of the graph store\<close>

lemmas store_eval =
  addLink_def addNode_def createLink_def createSingleLink_def createUniqueLink_def Link_new_def
  enterModification_def exitModification_def recordNodeChange_def recordLinkChange_def
  getNode_def getLink_def Node_addLink_def Graph_new_def makeId_def makeId_str_def int_str_def
  nat_str.simps digit_def pointing_def removeLinkInstance_def removeNode_def detach_def
  removeLink_def resolveLink_def on_changed_def linkCount_def nodeCount_def links_list_def
  Let_def

lemma store_1_2_value:
  "store_1_2 =
     \<lparr>multigraph = False, nodes = [(NumId 1, 0), (NumId 2, 1)],
      links = [(makeId (NumId 1) (NumId 2), 0)], multiEdges = (\<lambda>_. None), suspendEvents = 0,
      listening = True, changes = [],
      node_heap = (\<lambda>_. \<lparr>node_id = NumId 0, node_links = None, node_data = None\<rparr>)
         (0 := \<lparr>node_id = NumId 1, node_links = Some [0], node_data = None\<rparr>,
          1 := \<lparr>node_id = NumId 2, node_links = Some [0], node_data = None\<rparr>),
      link_heap = (\<lambda>_. \<lparr>link_fromId = NumId 0, link_toId = NumId 0, link_data = None,
                          link_id = []\<rparr>)
         (0 := \<lparr>link_fromId = NumId 1, link_toId = NumId 2, link_data = None,
                link_id = makeId (NumId 1) (NumId 2)\<rparr>),
      next_node = 2, next_link = 1,
      emitted = [[NodeChange Add 0, NodeChange Add 1, LinkChange Add 0]]\<rparr>"
  unfolding store_1_2_def by (simp add: store_eval numeral_2_eq_2)

subsection \<open>Lookups and removal of links\<close>

lemma map_of_delete_same: "map_of (AList.delete k al) k = None"
  by (simp add: AList.delete_eq map_of_eq_None_iff image_iff)

lemma detach_fields [simp]:
  "nodes (detach e l g) = nodes g" "links (detach e l g) = links g"
  "link_heap (detach e l g) = link_heap g" "suspendEvents (detach e l g) = suspendEvents g"
  "changes (detach e l g) = changes g" "emitted (detach e l g) = emitted g"
  "listening (detach e l g) = listening g" "getNode (detach e l g) = getNode g"
  by (auto simp: detach_def getNode_def split: option.splits)

lemma detach_removed:
  "getNode g e = Some n \<Longrightarrow> node_links (node_heap (detach e l g) n) = Some ls \<Longrightarrow> l \<notin> set ls"
  by (auto simp: detach_def split: option.splits)

lemma detach_subset:
  "node_links (node_heap (detach e l g) n) = Some ls \<Longrightarrow>
     \<exists>ls0. node_links (node_heap g n) = Some ls0 \<and> set ls \<subseteq> set ls0"
  by (auto simp: detach_def split: option.splits if_splits)


lemma removeLinkInstance_present:
  assumes "map_of (links g) (link_id (link_heap g l)) \<noteq> None"
  shows "\<exists>g'. removeLinkInstance l g = (True, g') \<and>
           map_of (links g') (link_id (link_heap g l)) = None \<and>
           nodes g' = nodes g \<and> link_heap g' = link_heap g \<and>
           (\<forall>e \<in> {link_fromId (link_heap g l), link_toId (link_heap g l)}.
              \<forall>n ls. getNode g' e = Some n \<longrightarrow> node_links (node_heap g' n) = Some ls
                \<longrightarrow> l \<notin> set ls)"
proof -
  define g2 where
    "g2 = (enterModification g)\<lparr>links := AList.delete (link_id (link_heap g l)) (links g)\<rparr>"
  define g3 where "g3 = detach (link_fromId (link_heap g l)) l g2"
  define g4 where "g4 = detach (link_toId (link_heap g l)) l g3"
  define g6 where "g6 = exitModification (recordLinkChange l Remove g4)"
  have r: "removeLinkInstance l g = (True, g6)"
    using assms
    by (simp add: removeLinkInstance_def Let_def g2_def g3_def g4_def g6_def
        enterModification_def)
  have heap: "node_heap g6 = node_heap g4"
    and nds: "nodes g6 = nodes g"
    and lks: "links g6 = AList.delete (link_id (link_heap g l)) (links g)"
    and lh: "link_heap g6 = link_heap g"
    by (simp_all add: exitModification_def recordLinkChange_def Let_def g6_def g4_def g3_def
        g2_def enterModification_def)
  have gn: "getNode g6 = getNode g" "getNode g2 = getNode g"
    using nds by (simp_all add: getNode_def fun_eq_iff g2_def enterModification_def)
  have a: "l \<notin> set ls"
    if "getNode g (link_toId (link_heap g l)) = Some n" "node_links (node_heap g4 n) = Some ls"
    for n ls
    using that detach_removed [of g3 "link_toId (link_heap g l)" n l ls]
    by (simp add: g4_def g3_def gn)
  have b: "l \<notin> set ls"
    if n: "getNode g (link_fromId (link_heap g l)) = Some n"
      and ls: "node_links (node_heap g4 n) = Some ls"
    for n ls
  proof -
    from ls obtain ls0 where 0: "node_links (node_heap g3 n) = Some ls0" "set ls \<subseteq> set ls0"
      unfolding g4_def using detach_subset by blast
    have "getNode g2 (link_fromId (link_heap g l)) = Some n"
      using n by (simp add: gn)
    then have "l \<notin> set ls0"
      using 0(1) unfolding g3_def by (rule detach_removed)
    then show ?thesis using 0(2) by blast
  qed
  have "map_of (links g6) (link_id (link_heap g l)) = None"
    by (simp add: lks map_of_delete_same)
  moreover have "\<forall>e \<in> {link_fromId (link_heap g l), link_toId (link_heap g l)}.
      \<forall>n ls. getNode g6 e = Some n \<longrightarrow> node_links (node_heap g6 n) = Some ls \<longrightarrow> l \<notin> set ls"
    using a b by (simp add: heap gn)
  ultimately show ?thesis
    using r nds lh by blast
qed

text \<open>
  C9. \<^verbatim>\<open>getLink(fromNodeId, toNodeId)\<close> is \<^verbatim>\<open>undefined\<close> as soon as one identifier is
  falsy (the number 0, the empty string), whatever the store holds; so the by-endpoint
  \<^verbatim>\<open>removeLink\<close> throws for such a pair and can neither find nor remove the link.
\<close>

theorem getLink_falsy_undefined:
  "falsy fromNodeId \<or> falsy toNodeId \<Longrightarrow>
     getLink g fromNodeId toNodeId = None \<and>
     removeLink (ByEndpoints fromNodeId toNodeId) g = Inl Unknown_link"
  by (simp add: getLink_def removeLink_def resolveLink_def)

text \<open>The link from node 0 to node 1 is in the store and still not found.\<close>

theorem getLink_falsy_undefined_witness:
  "(falsy (NumId 0) \<or> falsy (NumId 1)) \<and>
   map_of (links store_0_1) (makeId (NumId 0) (NumId 1)) = Some 0 \<and>
   getLink store_0_1 (NumId 0) (NumId 1) = None \<and>
   removeLink (ByEndpoints (NumId 0) (NumId 1)) store_0_1 = Inl Unknown_link"
proof -
  have f: "falsy (NumId 0) \<or> falsy (NumId 1)"
    by simp
  have s: "map_of (links store_0_1) (makeId (NumId 0) (NumId 1)) = Some 0"
    unfolding store_0_1_def by (simp add: store_eval)
  from f s getLink_falsy_undefined [OF f, of store_0_1] show ?thesis
    by blast
qed

text \<open>
  C10. \<^verbatim>\<open>addNode(n)\<close> without data, on a store that holds node \<open>n\<close> with a payload: the
  payload becomes \<^verbatim>\<open>undefined\<close>, the node object returned is the one the store held,
  its id and its set of links are as before, nothing else in the store moves, and the change
  recorded is an update (delivered at once when no modification is open, queued otherwise).
\<close>

theorem addNode_existing_overwrites_data:
  assumes "getNode g n = Some r" and "node_data (node_heap g r) = Some v"
  shows "fst (addNode n None g) = r \<and>
         node_heap (snd (addNode n None g)) =
           (node_heap g)(r := (node_heap g r)\<lparr>node_data := None\<rparr>) \<and>
         node_data (node_heap (snd (addNode n None g)) r) = None \<and>
         node_id (node_heap (snd (addNode n None g)) r) = node_id (node_heap g r) \<and>
         node_links (node_heap (snd (addNode n None g)) r) = node_links (node_heap g r) \<and>
         nodes (snd (addNode n None g)) = nodes g \<and>
         links (snd (addNode n None g)) = links g \<and>
         link_heap (snd (addNode n None g)) = link_heap g \<and>
         (listening g \<longrightarrow> idle g \<longrightarrow>
            emitted (snd (addNode n None g)) = emitted g @ [[NodeChange Update r]] \<and>
            idle (snd (addNode n None g))) \<and>
         (listening g \<longrightarrow> suspendEvents g \<noteq> 0 \<longrightarrow>
            emitted (snd (addNode n None g)) = emitted g \<and>
            changes (snd (addNode n None g)) = changes g @ [NodeChange Update r])"
  using assms
  by (simp add: addNode_def getNode_def enterModification_def exitModification_def
      recordNodeChange_def Let_def idle_def)

theorem addNode_existing_overwrites_data_witness:
  "getNode store_hello (NumId 1) = Some 0 \<and>
   node_data (node_heap store_hello 0) = Some ''hello'' \<and>
   listening store_hello \<and> idle store_hello \<and>
   fst (addNode (NumId 1) None store_hello) = 0 \<and>
   node_data (node_heap (snd (addNode (NumId 1) None store_hello)) 0) = None \<and>
   emitted (snd (addNode (NumId 1) None store_hello)) = [[NodeChange Update 0]]"
proof -
  have h: "getNode store_hello (NumId 1) = Some 0"
    "node_data (node_heap store_hello 0) = Some ''hello''"
    unfolding store_hello_def by (simp_all add: store_eval)
  have i: "listening store_hello" "idle store_hello" "emitted store_hello = []"
    unfolding store_hello_def by (simp_all add: store_eval idle_def)
  from addNode_existing_overwrites_data [OF h] h i show ?thesis
    by simp
qed

text \<open>
  C5, the store at the input where the code departs from the claim: a multigraph, and the
  link from node 0 to node 1 added twice. \<^verbatim>\<open>createUniqueLink\<close> asks \<^verbatim>\<open>getLink\<close>
  whether the pair is taken, \<^verbatim>\<open>getLink\<close> answers \<^verbatim>\<open>undefined\<close> for the falsy id 0,
  the second link gets the id of the first and replaces it in the store: the count stays 1,
  and the two link objects share one identity.
\<close>

theorem multigraph_falsy_endpoint_same_id:
  "linkCount (snd (addLink (NumId 0) (NumId 1) (Some ''first'')
       (Graph_new True :: (string, string) Graph))) = 1 \<and>
   linkCount (snd (addLink (NumId 0) (NumId 1) (Some ''second'')
       (snd (addLink (NumId 0) (NumId 1) (Some ''first'')
          (Graph_new True :: (string, string) Graph))))) = 1 \<and>
   link_id (link_heap (snd (addLink (NumId 0) (NumId 1) (Some ''second'')
       (snd (addLink (NumId 0) (NumId 1) (Some ''first'')
          (Graph_new True :: (string, string) Graph))))) 0) =
   link_id (link_heap (snd (addLink (NumId 0) (NumId 1) (Some ''second'')
       (snd (addLink (NumId 0) (NumId 1) (Some ''first'')
          (Graph_new True :: (string, string) Graph))))) 1)"
  by (simp add: store_eval)




subsection \<open>Removal of a node, and the batching of notifications\<close>

lemma map_of_delete_other: "k' \<noteq> k \<Longrightarrow> map_of (AList.delete k al) k' = map_of al k'"
  by (simp add: delete_conv')

lemma detach_node_id [simp]: "node_id (node_heap (detach e l g) n) = node_id (node_heap g n)"
  by (auto simp: detach_def split: option.splits)

lemma detach_links_None:
  "node_links (node_heap (detach e l g) n) = None \<longleftrightarrow> node_links (node_heap g n) = None"
  by (auto simp: detach_def split: option.splits)

lemma rli_eq:
  "map_of (links g) (link_id (link_heap g l)) = Some y \<Longrightarrow>
     removeLinkInstance l g =
       (True, exitModification (recordLinkChange l Remove
          (detach (link_toId (link_heap g l)) l
             (detach (link_fromId (link_heap g l)) l
                ((enterModification g)
                   \<lparr>links := AList.delete (link_id (link_heap g l)) (links g)\<rparr>)))))"
  by (simp add: removeLinkInstance_def Let_def enterModification_def)

lemma rli_frame:
  "nodes (snd (removeLinkInstance l g)) = nodes g"
  "link_heap (snd (removeLinkInstance l g)) = link_heap g"
  "listening (snd (removeLinkInstance l g)) = listening g"
  "suspendEvents (snd (removeLinkInstance l g)) = suspendEvents g"
  "getNode (snd (removeLinkInstance l g)) = getNode g"
  "node_id (node_heap (snd (removeLinkInstance l g)) n) = node_id (node_heap g n)"
  by (simp_all add: removeLinkInstance_def Let_def exitModification_def recordLinkChange_def
      enterModification_def getNode_def fun_eq_iff)

lemma rli_subset:
  assumes "node_links (node_heap (snd (removeLinkInstance l g)) n) = Some ls'"
  shows "\<exists>ls. node_links (node_heap g n) = Some ls \<and> set ls' \<subseteq> set ls"
proof (cases "map_of (links g) (link_id (link_heap g l))")
  case None
  with assms show ?thesis by (simp add: removeLinkInstance_def)
next
  case (Some y)
  define g2 where
    "g2 = (enterModification g)\<lparr>links := AList.delete (link_id (link_heap g l)) (links g)\<rparr>"
  define g3 where "g3 = detach (link_fromId (link_heap g l)) l g2"
  define g4 where "g4 = detach (link_toId (link_heap g l)) l g3"
  have "node_heap (snd (removeLinkInstance l g)) = node_heap g4"
    by (simp add: rli_eq [OF Some] g2_def g3_def g4_def exitModification_def
        recordLinkChange_def Let_def)
  with assms have "node_links (node_heap g4 n) = Some ls'" by simp
  then obtain a where a: "node_links (node_heap g3 n) = Some a" "set ls' \<subseteq> set a"
    unfolding g4_def using detach_subset by blast
  then obtain b where b: "node_links (node_heap g2 n) = Some b" "set a \<subseteq> set b"
    unfolding g3_def using detach_subset by blast
  have "node_heap g2 = node_heap g" by (simp add: g2_def enterModification_def)
  with a b show ?thesis by auto
qed

lemma rli_nested:
  assumes "suspendEvents g \<noteq> 0"
  shows "emitted (snd (removeLinkInstance l g)) = emitted g"
    and "changes (snd (removeLinkInstance l g)) =
           changes g @ (if listening g \<and> map_of (links g) (link_id (link_heap g l)) \<noteq> None
                        then [LinkChange Remove l] else [])"
  using assms
  by (simp_all add: removeLinkInstance_def Let_def exitModification_def recordLinkChange_def
      enterModification_def)

lemma rli_store:
  "map_of (links (snd (removeLinkInstance l g))) k =
     (if map_of (links g) (link_id (link_heap g l)) \<noteq> None \<and> k = link_id (link_heap g l)
      then None else map_of (links g) k)"
  by (simp add: removeLinkInstance_def Let_def exitModification_def recordLinkChange_def
      enterModification_def map_of_delete_same map_of_delete_other)

lemma rli_removed:
  assumes "map_of (links g) (link_id (link_heap g l)) \<noteq> None"
    and "e = link_fromId (link_heap g l) \<or> e = link_toId (link_heap g l)"
    and "getNode g e = Some n"
    and "node_links (node_heap (snd (removeLinkInstance l g)) n) = Some ls"
  shows "l \<notin> set ls"
proof -
  from removeLinkInstance_present [OF assms(1)] obtain g' where
    g': "removeLinkInstance l g = (True, g')" "nodes g' = nodes g"
    "\<forall>e \<in> {link_fromId (link_heap g l), link_toId (link_heap g l)}.
       \<forall>n ls. getNode g' e = Some n \<longrightarrow> node_links (node_heap g' n) = Some ls \<longrightarrow> l \<notin> set ls"
    by blast
  have "getNode g' e = Some n"
    using g'(2) assms(3) by (simp add: getNode_def)
  with g' assms(2,4) show ?thesis by auto
qed

lemma fold_frame:
  "nodes (removeAllLinks ls g) = nodes g"
  "link_heap (removeAllLinks ls g) = link_heap g"
  "listening (removeAllLinks ls g) = listening g"
  "suspendEvents (removeAllLinks ls g) = suspendEvents g"
  "getNode (removeAllLinks ls g) = getNode g"
  "node_id (node_heap (removeAllLinks ls g) n) = node_id (node_heap g n)"
  by (induction ls arbitrary: g) (simp_all add: rli_frame)

lemma fold_subset:
  "node_links (node_heap (removeAllLinks ls g) n) = Some ls' \<Longrightarrow>
     \<exists>ls0. node_links (node_heap g n) = Some ls0 \<and> set ls' \<subseteq> set ls0"
proof (induction ls arbitrary: g ls')
  case Nil
  then show ?case by simp
next
  case (Cons a ls)
  from Cons.prems obtain x where
    x: "node_links (node_heap (snd (removeLinkInstance a g)) n) = Some x" "set ls' \<subseteq> set x"
    using Cons.IH [of "snd (removeLinkInstance a g)" ls'] by auto
  from rli_subset [OF x(1)] x(2) show ?case by auto
qed

lemma fold_quiet:
  "suspendEvents g \<noteq> 0 \<Longrightarrow> emitted (removeAllLinks ls g) = emitted g"
  by (induction ls arbitrary: g) (simp_all add: rli_frame rli_nested)

lemma stored_step:
  assumes "stored g (a # ls)"
  shows "stored (snd (removeLinkInstance a g)) ls"
    and "map_of (links g) (link_id (link_heap g a)) \<noteq> None"
proof -
  from assms have a: "map_of (links g) (link_id (link_heap g a)) = Some a"
    and d: "a \<notin> set ls" "distinct ls"
    and r: "\<forall>l \<in> set ls. map_of (links g) (link_id (link_heap g l)) = Some l"
    by (simp_all add: stored_def)
  show "map_of (links g) (link_id (link_heap g a)) \<noteq> None" using a by simp
  have "map_of (links (snd (removeLinkInstance a g))) (link_id (link_heap g l)) = Some l"
    if "l \<in> set ls" for l
  proof -
    have "link_id (link_heap g l) \<noteq> link_id (link_heap g a)"
      using a r that d(1) by (metis option.inject)
    then show ?thesis using r that by (simp add: rli_store)
  qed
  then show "stored (snd (removeLinkInstance a g)) ls"
    using d by (simp add: stored_def rli_frame)
qed

lemma fold_changes:
  "suspendEvents g \<noteq> 0 \<Longrightarrow> stored g ls \<Longrightarrow>
     changes (removeAllLinks ls g) =
       changes g @ (if listening g then map (LinkChange Remove) ls else [])"
proof (induction ls arbitrary: g)
  case Nil
  then show ?case by simp
next
  case (Cons a ls)
  note st = stored_step [OF Cons.prems(2)]
  show ?case
    using Cons.IH [OF _ st(1)] Cons.prems(1) st(2)
    by (simp add: rli_frame rli_nested)
qed

lemma fold_store:
  "stored g ls \<Longrightarrow> l \<in> set ls \<Longrightarrow>
     map_of (links (removeAllLinks ls g)) (link_id (link_heap g l)) = None"
proof (induction ls arbitrary: g)
  case Nil
  then show ?case by simp
next
  case (Cons a ls)
  note st = stored_step [OF Cons.prems(1)]
  have keep: "map_of (links (removeAllLinks ls h)) k = None" if "map_of (links h) k = None" for h k
    using that by (induction ls arbitrary: h) (simp_all add: rli_store)
  show ?case
  proof (cases "l = a")
    case True
    have "map_of (links (snd (removeLinkInstance a g))) (link_id (link_heap g a)) = None"
      using st(2) by (simp add: rli_store)
    then show ?thesis using True keep by simp
  next
    case False
    with Cons.prems have "l \<in> set ls" by simp
    from Cons.IH [OF st(1) this] show ?thesis by (simp add: rli_frame)
  qed
qed

lemma fold_removed:
  "stored g ls \<Longrightarrow> l \<in> set ls \<Longrightarrow>
   e = link_fromId (link_heap g l) \<or> e = link_toId (link_heap g l) \<Longrightarrow>
   getNode g e = Some n \<Longrightarrow>
   node_links (node_heap (removeAllLinks ls g) n) = Some ls' \<Longrightarrow> l \<notin> set ls'"
proof (induction ls arbitrary: g)
  case Nil
  then show ?case by simp
next
  case (Cons a ls)
  note st = stored_step [OF Cons.prems(1)]
  show ?case
  proof (cases "l = a")
    case True
    from Cons.prems(5) obtain x where
      x: "node_links (node_heap (snd (removeLinkInstance a g)) n) = Some x" "set ls' \<subseteq> set x"
      using fold_subset [of ls "snd (removeLinkInstance a g)" n ls'] by auto
    have "a \<notin> set x"
      using rli_removed [where g = g and l = a and e = e and n = n and ls = x]
        st(2) x(1) Cons.prems(3,4) True by simp
    with x(2) True show ?thesis by auto
  next
    case False
    with Cons.prems have "l \<in> set ls" by simp
    from Cons.IH [OF st(1) this] Cons.prems(3,4,5) show ?thesis
      by (simp add: rli_frame)
  qed
qed

lemmas graph_inv_alt = graph_inv_def

lemma linked_links:
  "t \<in> set (fst (nonOrientedLinks g n ls)) \<Longrightarrow> fst (snd t) \<in> set ls"
  "t \<in> set (fst (orientedLinks g n ls)) \<Longrightarrow> fst (snd t) \<in> set ls"
  by (induction ls arbitrary: t) (auto simp: Let_def split: option.splits prod.splits if_splits)

lemma linkedNodes_links:
  assumes "t \<in> set (fst (linkedNodes g k ori))"
  shows "\<exists>n. getNode g k = Some n \<and> fst (snd t) \<in> set (links_list g n)"
  using assms
  by (auto simp: linkedNodes_def links_list_def linked_links split: option.splits if_splits)

lemma removeNode_absent: "getNode g nodeId = None \<Longrightarrow> removeNode nodeId g = (False, g)"
  by (simp add: removeNode_def)

lemma removeNode_eq:
  assumes "getNode g nodeId = Some n"
  shows "removeNode nodeId g =
     (True, exitModification (recordNodeChange n Remove
        ((removeAllLinks (links_list g n) (enterModification g))
           \<lparr>node_heap := (node_heap (removeAllLinks (links_list g n) (enterModification g)))
              (n := (node_heap (removeAllLinks (links_list g n) (enterModification g)) n)
                      \<lparr>node_links := None\<rparr>),
            nodes := AList.delete nodeId (nodes g)\<rparr>)))"
proof (cases "node_links (node_heap g n)")
  case None
  have "(node_heap g)(n := (node_heap g n)\<lparr>node_links := None\<rparr>) = node_heap g"
    using None by (auto simp: fun_eq_iff)
  then show ?thesis
    using assms None
    by (simp add: removeNode_def links_list_def Let_def enterModification_def getNode_def)
next
  case (Some ls)
  then show ?thesis
    using assms
    by (simp add: removeNode_def links_list_def Let_def enterModification_def getNode_def
        fold_frame)
qed

lemma removeNode_cascade_present:
  assumes inv: "graph_inv g" and idle: "idle g" and n: "getNode g nodeId = Some n"
  defines "g' \<equiv> snd (removeNode nodeId g)"
  shows "fst (removeNode nodeId g) = True"
    and "emitted g' = emitted g @
           (if listening g then [map (LinkChange Remove) (links_list g n) @ [NodeChange Remove n]]
            else [])"
    and "idle g'"
    and "nodes g' = AList.delete nodeId (nodes g)"
    and "getNode g' nodeId = None"
    and "\<forall>l \<in> set (links_list g n). map_of (links g') (link_id (link_heap g l)) = None"
    and "\<forall>(k, m) \<in> set (nodes g'). \<forall>l \<in> set (links_list g' m).
           link_fromId (link_heap g' l) \<noteq> nodeId \<and> link_toId (link_heap g' l) \<noteq> nodeId"
proof -
  define g1 where "g1 = enterModification g"
  define H where "H = removeAllLinks (links_list g n) g1"
  define g2 where "g2 = H\<lparr>node_heap := (node_heap H)(n := (node_heap H n)\<lparr>node_links := None\<rparr>),
                         nodes := AList.delete nodeId (nodes g)\<rparr>"
  have res: "removeNode nodeId g = (True, exitModification (recordNodeChange n Remove g2))"
    unfolding g2_def H_def g1_def by (rule removeNode_eq [OF n])
  have mem: "(nodeId, n) \<in> set (nodes g)"
    using n by (simp add: getNode_def map_of_SomeD)
  have g1: "suspendEvents g1 = 1" "changes g1 = []" "links g1 = links g"
    "link_heap g1 = link_heap g" "node_heap g1 = node_heap g" "nodes g1 = nodes g"
    "listening g1 = listening g" "emitted g1 = emitted g" "getNode g1 = getNode g"
    using idle by (simp_all add: g1_def enterModification_def idle_def getNode_def fun_eq_iff)
  have st: "stored g1 (links_list g n)"
    using inv mem unfolding graph_inv_alt stored_def g1 by fastforce
  have H: "suspendEvents H = 1" "emitted H = emitted g" "listening H = listening g"
    "link_heap H = link_heap g" "nodes H = nodes g"
    "changes H = (if listening g then map (LinkChange Remove) (links_list g n) else [])"
    unfolding H_def using fold_changes [OF _ st]
    by (simp_all add: fold_frame fold_quiet g1)
  show "fst (removeNode nodeId g) = True" by (simp add: res)
  have g'_eq: "g' = exitModification (recordNodeChange n Remove g2)"
    by (simp add: g'_def res)
  show "emitted g' = emitted g @
           (if listening g then [map (LinkChange Remove) (links_list g n) @ [NodeChange Remove n]]
            else [])"
    using idle
    by (simp add: g'_eq exitModification_def recordNodeChange_def g2_def H Let_def idle_def)
  show "idle g'"
    using idle
    by (simp add: g'_eq exitModification_def recordNodeChange_def g2_def H Let_def idle_def)
  show nds: "nodes g' = AList.delete nodeId (nodes g)"
    by (simp add: g'_eq exitModification_def recordNodeChange_def g2_def Let_def)
  then show "getNode g' nodeId = None"
    by (simp add: getNode_def map_of_delete_same)
  have lks: "links g' = links H" and lh: "link_heap g' = link_heap g"
    and nh: "node_heap g' = (node_heap H)(n := (node_heap H n)\<lparr>node_links := None\<rparr>)"
    by (simp_all add: g'_eq exitModification_def recordNodeChange_def g2_def Let_def H)
  show "\<forall>l \<in> set (links_list g n). map_of (links g') (link_id (link_heap g l)) = None"
    using fold_store [OF st] by (simp add: lks H_def g1)
  show "\<forall>(k, m) \<in> set (nodes g'). \<forall>l \<in> set (links_list g' m).
           link_fromId (link_heap g' l) \<noteq> nodeId \<and> link_toId (link_heap g' l) \<noteq> nodeId"
  proof (intro ballI, clarify)
    fix k m l
    assume km: "(k, m) \<in> set (nodes g')" and l: "l \<in> set (links_list g' m)"
    from km have k: "k \<noteq> nodeId" "(k, m) \<in> set (nodes g)"
      by (auto simp: nds AList.delete_eq)
    from l have mn: "m \<noteq> n"
      by (auto simp: links_list_def nh)
    from l mn obtain ls' where ls': "node_links (node_heap H m) = Some ls'" "l \<in> set ls'"
      by (cases "node_links (node_heap H m)") (auto simp: links_list_def nh)
    then obtain ls0 where ls0: "node_links (node_heap g m) = Some ls0" "l \<in> set ls0"
      unfolding H_def using fold_subset [of "links_list g n" g1 m ls'] by (auto simp: g1)
    then have lm: "l \<in> set (links_list g m)"
      by (simp add: links_list_def)
    from inv k(2) lm have ends: "link_fromId (link_heap g l) = k \<or> link_toId (link_heap g l) = k"
      and idx: "\<forall>e \<in> {link_fromId (link_heap g l), link_toId (link_heap g l)}.
               \<exists>m \<in> set (nodes g). fst m = e \<and> l \<in> set (links_list g (snd m))"
      unfolding graph_inv_alt by fastforce+
    have dist: "distinct (map fst (nodes g))"
      using inv by (simp add: graph_inv_alt)
    have gk: "getNode g1 k = Some m"
      using dist k(2) by (simp add: g1 getNode_def)
    show "link_fromId (link_heap g' l) \<noteq> nodeId \<and> link_toId (link_heap g' l) \<noteq> nodeId"
    proof (rule ccontr)
      assume "\<not> ?thesis"
      then have "nodeId \<in> {link_fromId (link_heap g l), link_toId (link_heap g l)}"
        by (auto simp: lh)
      with idx obtain m' where m': "m' \<in> set (nodes g)" "fst m' = nodeId"
        "l \<in> set (links_list g (snd m'))"
        by blast
      from m'(1,2) dist mem have "snd m' = n"
        by (metis eq_key_imp_eq_value prod.collapse)
      with m'(3) have ln: "l \<in> set (links_list g n)" by simp
      have "l \<notin> set ls'"
        using fold_removed [OF st ln, of k m ls'] ends gk ls'(1)
        by (auto simp: g1 H_def)
      with ls'(2) show False by simp
    qed
  qed
qed

lemma nestableD:
  assumes "nestable f" "0 < suspendEvents g"
  shows "suspendEvents (snd (f g)) = suspendEvents g"
    and "emitted (snd (f g)) = emitted g"
    and "listening (snd (f g)) = listening g"
    and "0 < k \<Longrightarrow> f (g\<lparr>suspendEvents := k\<rparr>) = (fst (f g), (snd (f g))\<lparr>suspendEvents := k\<rparr>)"
  using assms unfolding nestable_def by blast+

lemma exit_nested:
  "k \<noteq> 0 \<Longrightarrow> exitModification (g\<lparr>suspendEvents := k + 1\<rparr>) = g\<lparr>suspendEvents := k\<rparr>"
  by (simp add: exitModification_def Let_def)

lemma suspend_same: "suspendEvents g = k \<Longrightarrow> g\<lparr>suspendEvents := k\<rparr> = g"
  by simp

lemma bracket_nested:
  assumes n: "nestable f" and s: "0 < suspendEvents g"
  shows "bracket f g = f g"
proof -
  have 1: "f (enterModification g) =
      (fst (f g), (snd (f g))\<lparr>suspendEvents := suspendEvents g + 1\<rparr>)"
    unfolding enterModification_def using nestableD(4) [OF n s, of "suspendEvents g + 1"] s
    by simp
  have "exitModification ((snd (f g))\<lparr>suspendEvents := suspendEvents g + 1\<rparr>) = snd (f g)"
    using exit_nested [of "suspendEvents g" "snd (f g)"] s nestableD(1) [OF n s]
    by (simp add: suspend_same)
  then show ?thesis
    by (simp add: bracket_def 1)
qed

lemma bracket_nestable:
  assumes "nestable f"
  shows "nestable (bracket f)"
  unfolding nestable_def
proof (intro allI impI conjI)
  fix g :: "('a, 'b) Graph" and k :: int
  assume s: "0 < suspendEvents g"
  note e = bracket_nested [OF assms s]
  show "suspendEvents (snd (bracket f g)) = suspendEvents g"
    "emitted (snd (bracket f g)) = emitted g" "listening (snd (bracket f g)) = listening g"
    unfolding e using nestableD [OF assms s] by simp_all
  assume k: "0 < k"
  then have "0 < suspendEvents (g\<lparr>suspendEvents := k\<rparr>)" by simp
  from bracket_nested [OF assms this] e nestableD(4) [OF assms s k]
  show "bracket f (g\<lparr>suspendEvents := k\<rparr>) =
      (fst (bracket f g), (snd (bracket f g))\<lparr>suspendEvents := k\<rparr>)"
    by simp
qed

lemma bracket_top:
  assumes n: "nestable f" and i: "idle g"
  shows "fst (bracket f g) = fst (bracket f (g\<lparr>suspendEvents := 1\<rparr>))"
    and "snd (bracket f g) = exitModification (snd (bracket f (g\<lparr>suspendEvents := 1\<rparr>)))"
    and "suspendEvents (snd (bracket f (g\<lparr>suspendEvents := 1\<rparr>))) = 1"
    and "emitted (snd (bracket f (g\<lparr>suspendEvents := 1\<rparr>))) = emitted g"
    and "listening (snd (bracket f (g\<lparr>suspendEvents := 1\<rparr>))) = listening g"
proof -
  have s: "0 < suspendEvents (g\<lparr>suspendEvents := 1\<rparr>)" by simp
  have e: "enterModification g = g\<lparr>suspendEvents := 1\<rparr>"
    using i by (simp add: enterModification_def idle_def)
  note b = bracket_nested [OF n s]
  show "fst (bracket f g) = fst (bracket f (g\<lparr>suspendEvents := 1\<rparr>))"
    "snd (bracket f g) = exitModification (snd (bracket f (g\<lparr>suspendEvents := 1\<rparr>)))"
    unfolding b by (simp_all add: bracket_def e)
  show "suspendEvents (snd (bracket f (g\<lparr>suspendEvents := 1\<rparr>))) = 1"
    "emitted (snd (bracket f (g\<lparr>suspendEvents := 1\<rparr>))) = emitted g"
    "listening (snd (bracket f (g\<lparr>suspendEvents := 1\<rparr>))) = listening g"
    unfolding b using nestableD(1,2,3) [OF n s] by simp_all
qed

lemma exit_outermost:
  assumes "suspendEvents h = 1"
  shows "emitted (exitModification h) = emitted h @ (if changes h = [] then [] else [changes h])"
    and "idle (exitModification h)"
  using assms by (simp_all add: exitModification_def idle_def Let_def)

lemma lift_detach:
  "detach e l (g\<lparr>suspendEvents := k\<rparr>) = (detach e l g)\<lparr>suspendEvents := k\<rparr>"
  by (auto simp: detach_def getNode_def split: option.splits)

lemma links_upd_detach:
  "detach e l (g\<lparr>links := L\<rparr>) = (detach e l g)\<lparr>links := L\<rparr>"
  by (auto simp: detach_def getNode_def split: option.splits)

lemma nestable_const: "nestable (\<lambda>g. (x, g))"
  by (simp add: nestable_def)

lemma nestable_if:
  assumes "nestable f" "nestable h" "\<And>g k. c (g\<lparr>suspendEvents := k\<rparr>) = c g"
  shows "nestable (\<lambda>g. if c g then f g else h g)"
  unfolding nestable_def
  using nestableD [OF assms(1)] nestableD [OF assms(2)] assms(3) by simp

lemma addNode_bracket: "addNode nodeId d = bracket (addNode_body nodeId d)"
  by (rule ext)
     (simp add: addNode_def bracket_def addNode_body_def Let_def recordNodeChange_def
        split: option.splits)

lemma addNode_body_nestable: "nestable (addNode_body nodeId d)"
  by (simp add: nestable_def addNode_body_def getNode_def recordNodeChange_def
      split: option.splits)

lemma addNode_nestable: "nestable (addNode nodeId d)"
  unfolding addNode_bracket by (rule bracket_nestable [OF addNode_body_nestable])

lemma rli_bracket:
  "removeLinkInstance l =
     (\<lambda>g. if map_of (links g) (link_id (link_heap g l)) = None then (False, g)
          else bracket (rli_body l) g)"
  by (rule ext)
     (simp add: removeLinkInstance_def bracket_def rli_body_def Let_def enterModification_def)

lemma rli_body_nestable: "nestable (rli_body l)"
  by (simp add: nestable_def rli_body_def recordLinkChange_def links_upd_detach lift_detach)

lemma rli_nestable: "nestable (removeLinkInstance l)"
  unfolding rli_bracket
  by (rule nestable_if [OF nestable_const bracket_nestable [OF rli_body_nestable]]) simp

lemma nestable_fold:
  fixes f :: "'c \<Rightarrow> ('nd, 'ld) Graph \<Rightarrow> 'a \<times> ('nd, 'ld) Graph"
  assumes "\<And>l. nestable (f l)"
  shows "nestable (\<lambda>g. ((), fold (\<lambda>l a. snd (f l a)) ls g))"
proof (induction ls)
  case Nil
  show ?case by (simp add: nestable_def)
next
  case (Cons a ls)
  show ?case
    unfolding nestable_def
  proof (intro allI impI conjI)
    fix g :: "('nd, 'ld) Graph" and k :: int
    assume s: "0 < suspendEvents g"
    note a = nestableD [OF assms [of a] s]
    have s': "0 < suspendEvents (snd (f a g))" using a(1) s by simp
    note r = nestableD [OF Cons.IH s']
    show "suspendEvents (snd ((), fold (\<lambda>l a. snd (f l a)) (a # ls) g)) = suspendEvents g"
      "emitted (snd ((), fold (\<lambda>l a. snd (f l a)) (a # ls) g)) = emitted g"
      "listening (snd ((), fold (\<lambda>l a. snd (f l a)) (a # ls) g)) = listening g"
      using a r by simp_all
    assume k: "0 < k"
    show "((), fold (\<lambda>l a. snd (f l a)) (a # ls) (g\<lparr>suspendEvents := k\<rparr>)) =
       (fst ((), fold (\<lambda>l a. snd (f l a)) (a # ls) g),
        (snd ((), fold (\<lambda>l a. snd (f l a)) (a # ls) g))\<lparr>suspendEvents := k\<rparr>)"
      using a(4) [OF k] r(4) [OF k] by simp
  qed
qed

lemma removeAllLinks_nestable: "nestable (\<lambda>g. ((), removeAllLinks ls g))"
  by (rule nestable_fold [of removeLinkInstance, OF rli_nestable])

lemma removeNode_bracket:
  "removeNode nodeId g =
     (case getNode g nodeId of
        None \<Rightarrow> (False, g)
      | Some n \<Rightarrow> bracket (removeNode_body nodeId n) g)"
proof (cases "getNode g nodeId")
  case None
  then show ?thesis by (simp add: removeNode_def)
next
  case (Some n)
  have l: "links_list (enterModification g) n = links_list g n"
    "nodes (enterModification g) = nodes g"
    by (simp_all add: links_list_def enterModification_def)
  show ?thesis
    unfolding removeNode_eq [OF Some]
    by (simp add: Some bracket_def removeNode_body_def l)
qed

lemma removeNode_body_nestable:
  "nestable (removeNode_body nodeId n :: ('nd, 'ld) Graph \<Rightarrow> bool \<times> ('nd, 'ld) Graph)"
  unfolding nestable_def
proof (intro allI impI conjI)
  fix g :: "('nd, 'ld) Graph" and k :: int
  assume s: "0 < suspendEvents g"
  note f = nestableD [OF removeAllLinks_nestable [of "links_list g n"] s, simplified]
  show "suspendEvents (snd (removeNode_body nodeId n g)) = suspendEvents g"
    "emitted (snd (removeNode_body nodeId n g)) = emitted g"
    "listening (snd (removeNode_body nodeId n g)) = listening g"
    using f(1,2,3) by (simp_all add: removeNode_body_def recordNodeChange_def)
  assume k: "0 < k"
  have l: "links_list (g\<lparr>suspendEvents := k\<rparr>) n = links_list g n"
    by (simp add: links_list_def)
  show "removeNode_body nodeId n (g\<lparr>suspendEvents := k\<rparr>) =
      (fst (removeNode_body nodeId n g), (snd (removeNode_body nodeId n g))\<lparr>suspendEvents := k\<rparr>)"
    using f(4) [OF k]
    by (simp add: removeNode_body_def l recordNodeChange_def f(3))
qed

lemma removeNode_nestable:
  "nestable (removeNode nodeId :: ('nd, 'ld) Graph \<Rightarrow> bool \<times> ('nd, 'ld) Graph)"
  unfolding nestable_def
proof (intro allI impI)
  fix g :: "('nd, 'ld) Graph"
  assume s: "0 < suspendEvents g"
  show "suspendEvents (snd (removeNode nodeId g)) = suspendEvents g \<and>
       emitted (snd (removeNode nodeId g)) = emitted g \<and>
       listening (snd (removeNode nodeId g)) = listening g \<and>
       (\<forall>k>0. removeNode nodeId (g\<lparr>suspendEvents := k\<rparr>) =
              (fst (removeNode nodeId g), (snd (removeNode nodeId g))\<lparr>suspendEvents := k\<rparr>))"
  proof (cases "getNode g nodeId")
    case None
    then show ?thesis by (simp add: removeNode_def getNode_def)
  next
    case (Some n)
    have g: "getNode (g\<lparr>suspendEvents := k\<rparr>) nodeId = Some n" for k
      using Some by (simp add: getNode_def)
    note b = nestableD [OF bracket_nestable [OF removeNode_body_nestable [of nodeId n]] s]
    show ?thesis
      unfolding removeNode_bracket Some g using b by simp
  qed
qed

lemma clear_loop_nestable:
  "nestable (\<lambda>g :: ('nd, 'ld) Graph. ((), clear_loop ks g))"
proof (induction ks)
  case Nil
  show ?case by (simp add: nestable_def)
next
  case (Cons a ks)
  show ?case
    unfolding nestable_def
  proof (intro allI impI)
    fix g :: "('nd, 'ld) Graph"
    assume s: "0 < suspendEvents g"
    show "suspendEvents (snd ((), clear_loop (a # ks) g)) = suspendEvents g \<and>
       emitted (snd ((), clear_loop (a # ks) g)) = emitted g \<and>
       listening (snd ((), clear_loop (a # ks) g)) = listening g \<and>
       (\<forall>k>0. ((), clear_loop (a # ks) (g\<lparr>suspendEvents := k\<rparr>)) =
              (fst ((), clear_loop (a # ks) g),
               (snd ((), clear_loop (a # ks) g))\<lparr>suspendEvents := k\<rparr>))"
    proof (cases "map_of (nodes g) a")
      case None
      then show ?thesis
        using nestableD [OF Cons.IH s] by simp
    next
      case (Some n)
      let ?i = "node_id (node_heap g n)"
      note r = nestableD [OF removeNode_nestable [of ?i] s]
      have s': "0 < suspendEvents (snd (removeNode ?i g))" using r(1) s by simp
      note c = nestableD [OF Cons.IH s']
      show ?thesis
        using Some r c by simp
    qed
  qed
qed

lemma clear_bracket: "clear g = snd (bracket clear_body g)"
  by (simp add: clear_def bracket_def clear_body_def Let_def)

lemma clear_body_nestable:
  "nestable (clear_body :: ('nd, 'ld) Graph \<Rightarrow> unit \<times> ('nd, 'ld) Graph)"
  unfolding nestable_def
proof (intro allI impI)
  fix g :: "('nd, 'ld) Graph"
  assume s: "0 < suspendEvents g"
  note c = nestableD [OF clear_loop_nestable [of "map fst (nodes g)"] s]
  show "suspendEvents (snd (clear_body g)) = suspendEvents g \<and>
       emitted (snd (clear_body g)) = emitted g \<and>
       listening (snd (clear_body g)) = listening g \<and>
       (\<forall>k>0. clear_body (g\<lparr>suspendEvents := k\<rparr>) =
              (fst (clear_body g), (snd (clear_body g))\<lparr>suspendEvents := k\<rparr>))"
    using c by (simp add: clear_body_def)
qed

lemma endpoint_nestable:
  "nestable (endpoint nodeId :: ('nd, 'ld) Graph \<Rightarrow> node_ref \<times> ('nd, 'ld) Graph)"
  unfolding nestable_def
proof (intro allI impI)
  fix g :: "('nd, 'ld) Graph"
  assume s: "0 < suspendEvents g"
  have g: "getNode (g\<lparr>suspendEvents := k\<rparr>) nodeId = getNode g nodeId" for k
    by (simp add: getNode_def)
  note a = nestableD [OF addNode_nestable [of nodeId None] s]
  show "suspendEvents (snd (endpoint nodeId g)) = suspendEvents g \<and>
       emitted (snd (endpoint nodeId g)) = emitted g \<and>
       listening (snd (endpoint nodeId g)) = listening g \<and>
       (\<forall>k>0. endpoint nodeId (g\<lparr>suspendEvents := k\<rparr>) =
              (fst (endpoint nodeId g), (snd (endpoint nodeId g))\<lparr>suspendEvents := k\<rparr>))"
    using a by (cases "getNode g nodeId") (simp_all add: endpoint_def g)
qed

lemma createLink_nestable:
  "nestable (createLink a b d :: ('nd, 'ld) Graph \<Rightarrow> link_ref \<times> ('nd, 'ld) Graph)"
  by (simp add: nestable_def createLink_def createSingleLink_def createUniqueLink_def
      Link_new_def Let_def getLink_def split: option.splits)

lemma attach_nestable:
  "nestable (attach a b m n l :: ('nd, 'ld) Graph \<Rightarrow> link_ref \<times> ('nd, 'ld) Graph)"
  by (simp add: nestable_def attach_def Node_addLink_def recordLinkChange_def Let_def)

lemma addLink_bracket: "addLink fromId toId d = bracket (addLink_body fromId toId d)"
  by (rule ext)
     (simp add: addLink_def bracket_def addLink_body_def attach_def endpoint_def Let_def
        split: prod.splits)

lemma nestable_bind:
  fixes f :: "('nd, 'ld) Graph \<Rightarrow> 'a \<times> ('nd, 'ld) Graph"
    and h :: "'a \<Rightarrow> ('nd, 'ld) Graph \<Rightarrow> 'b \<times> ('nd, 'ld) Graph"
  assumes "nestable f" "\<And>x. nestable (h x)"
  shows "nestable (\<lambda>g. case f g of (x, g') \<Rightarrow> h x g')"
  unfolding nestable_def
proof (intro allI impI)
  fix g :: "('nd, 'ld) Graph"
  assume s: "0 < suspendEvents g"
  obtain x g' where fg: "f g = (x, g')" by (cases "f g")
  note a = nestableD [OF assms(1) s, unfolded fg, simplified]
  have s': "0 < suspendEvents g'" using a(1) s by simp
  note b = nestableD [OF assms(2) [of x] s']
  show "suspendEvents (snd (case f g of (x, g') \<Rightarrow> h x g')) = suspendEvents g \<and>
       emitted (snd (case f g of (x, g') \<Rightarrow> h x g')) = emitted g \<and>
       listening (snd (case f g of (x, g') \<Rightarrow> h x g')) = listening g \<and>
       (\<forall>k>0. (case f (g\<lparr>suspendEvents := k\<rparr>) of (x, g') \<Rightarrow> h x g') =
              (fst (case f g of (x, g') \<Rightarrow> h x g'),
               (snd (case f g of (x, g') \<Rightarrow> h x g'))\<lparr>suspendEvents := k\<rparr>))"
    using a b by (simp add: fg)
qed

lemma addLink_body_nestable:
  "nestable (addLink_body a b d :: ('nd, 'ld) Graph \<Rightarrow> link_ref \<times> ('nd, 'ld) Graph)"
proof -
  have "addLink_body a b d =
      (\<lambda>g :: ('nd, 'ld) Graph. case endpoint a g of (m, g2) \<Rightarrow>
         (case endpoint b g2 of (n, g3) \<Rightarrow>
            (case createLink a b d g3 of (l, g4) \<Rightarrow> attach a b m n l g4)))"
    by (rule ext) (simp add: addLink_body_def Let_def)
  then show ?thesis
    by (simp only:)
       (intro nestable_bind endpoint_nestable createLink_nestable attach_nestable)
qed

lemma addLink_nestable:
  "nestable (addLink a b d :: ('nd, 'ld) Graph \<Rightarrow> link_ref \<times> ('nd, 'ld) Graph)"
  unfolding addLink_bracket by (rule bracket_nestable [OF addLink_body_nestable])

lemma bracket_batch:
  fixes f :: "('nd, 'ld) Graph \<Rightarrow> 'a \<times> ('nd, 'ld) Graph"
  assumes n: "nestable f" and i: "idle g"
  shows "emitted (snd (bracket f g)) =
           emitted g @ (if changes (snd (bracket f (g\<lparr>suspendEvents := 1\<rparr>))) = [] then []
                        else [changes (snd (bracket f (g\<lparr>suspendEvents := 1\<rparr>)))])"
    and "idle (snd (bracket f g))"
    and "emitted (snd (bracket f (g\<lparr>suspendEvents := 1\<rparr>))) = emitted g"
    and "snd (bracket f (g\<lparr>suspendEvents := 1\<rparr>)) = snd (f (g\<lparr>suspendEvents := 1\<rparr>))"
proof -
  note t = bracket_top [OF n i]
  show "emitted (snd (bracket f g)) =
           emitted g @ (if changes (snd (bracket f (g\<lparr>suspendEvents := 1\<rparr>))) = [] then []
                        else [changes (snd (bracket f (g\<lparr>suspendEvents := 1\<rparr>)))])"
    unfolding t(2) exit_outermost(1) [OF t(3)] t(4) ..
  show "idle (snd (bracket f g))"
    unfolding t(2) by (rule exit_outermost(2) [OF t(3)])
  show "emitted (snd (bracket f (g\<lparr>suspendEvents := 1\<rparr>))) = emitted g"
    by (rule t(4))
  show "snd (bracket f (g\<lparr>suspendEvents := 1\<rparr>)) = snd (f (g\<lparr>suspendEvents := 1\<rparr>))"
    using bracket_nested [OF n, of "g\<lparr>suspendEvents := 1\<rparr>"] by simp
qed

lemma unchanged_batch:
  assumes "idle g"
  shows "emitted g = emitted g @ (if changes (g\<lparr>suspendEvents := 1\<rparr>) = [] then []
                                  else [changes (g\<lparr>suspendEvents := 1\<rparr>)])"
    and "changes (g\<lparr>suspendEvents := 1\<rparr>) = []"
  using assms by (simp_all add: idle_def)

lemma exec_batch:
  fixes g :: "('nd, 'ld) Graph"
  assumes i: "idle g"
  shows "emitted (exec c g) = emitted g @ (if batch_of c g = [] then [] else [batch_of c g]) \<and>
         idle (exec c g) \<and> emitted (exec c (g\<lparr>suspendEvents := 1\<rparr>)) = emitted g"
proof (cases c)
  case (AddNode nodeId d)
  show ?thesis
    unfolding AddNode batch_of_def exec.simps addNode_bracket
    using bracket_batch(1,2,3) [OF addNode_body_nestable i] by blast
next
  case (AddLink a b d)
  show ?thesis
    unfolding AddLink batch_of_def exec.simps addLink_bracket
    using bracket_batch(1,2,3) [OF addLink_body_nestable i] by blast
next
  case (RemoveNode nodeId)
  show ?thesis
  proof (cases "getNode g nodeId")
    case None
    then have "getNode (g\<lparr>suspendEvents := 1\<rparr>) nodeId = None"
      by (simp add: getNode_def)
    with None show ?thesis
      unfolding RemoveNode batch_of_def exec.simps removeNode_bracket
      using unchanged_batch [OF i] i by simp
  next
    case (Some n)
    then have "getNode (g\<lparr>suspendEvents := 1\<rparr>) nodeId = Some n"
      by (simp add: getNode_def)
    with Some show ?thesis
      unfolding RemoveNode batch_of_def exec.simps removeNode_bracket
      using bracket_batch(1,2,3) [OF removeNode_body_nestable i, of nodeId n] by simp
  qed
next
  case (RemoveLink arg)
  have r: "resolveLink (g\<lparr>suspendEvents := 1\<rparr>) arg = resolveLink g arg"
    by (simp add: resolveLink_def getLink_def split: link_arg.splits)
  show ?thesis
  proof (cases "resolveLink g arg")
    case None
    with r show ?thesis
      unfolding RemoveLink batch_of_def exec.simps removeLink_def
      using unchanged_batch [OF i] i by simp
  next
    case (Some l)
    show ?thesis
    proof (cases "map_of (links g) (link_id (link_heap g l))")
      case None
      with r Some show ?thesis
        unfolding RemoveLink batch_of_def exec.simps removeLink_def rli_bracket
        using unchanged_batch [OF i] i by simp
    next
      case (Some y)
      note y = this
      have e: "exec (RemoveLink arg) h = snd (bracket (rli_body l) h)"
        if "resolveLink h arg = Some l" "map_of (links h) (link_id (link_heap h l)) = Some y"
        for h :: "('nd, 'ld) Graph"
        using that by (simp add: removeLink_def rli_bracket)
      have 1: "exec (RemoveLink arg) g = snd (bracket (rli_body l) g)"
        using \<open>resolveLink g arg = Some l\<close> y by (rule e)
      have 2: "exec (RemoveLink arg) (g\<lparr>suspendEvents := 1\<rparr>) =
          snd (bracket (rli_body l) (g\<lparr>suspendEvents := 1\<rparr>))"
        by (rule e) (use r \<open>resolveLink g arg = Some l\<close> y in simp_all)
      show ?thesis
        unfolding RemoveLink batch_of_def 1 2
        using bracket_batch(1,2,3) [OF rli_body_nestable i, of l] by blast
    qed
  qed
next
  case Clear
  show ?thesis
    unfolding Clear batch_of_def exec.simps clear_bracket
    using bracket_batch(1,2,3) [OF clear_body_nestable i] by blast
qed

lemma record_last:
  "listening g \<Longrightarrow> changes (recordNodeChange n ct g) = changes g @ [NodeChange ct n]"
  "listening g \<Longrightarrow> changes (recordLinkChange l ct g) = changes g @ [LinkChange ct l]"
  by (simp_all add: recordNodeChange_def recordLinkChange_def)

lemma nested_run:
  fixes f :: "('nd, 'ld) Graph \<Rightarrow> 'a \<times> ('nd, 'ld) Graph"
  assumes "nestable f"
  shows "snd (bracket f (g\<lparr>suspendEvents := 1\<rparr>)) = snd (f (g\<lparr>suspendEvents := 1\<rparr>))"
  using bracket_nested [OF assms, of "g\<lparr>suspendEvents := 1\<rparr>"] by simp

lemma batch_addNode:
  assumes "listening g"
  shows "batch_of (AddNode nodeId d) g \<noteq> []"
  unfolding batch_of_def exec.simps addNode_bracket nested_run [OF addNode_body_nestable]
  using assms
  by (simp add: addNode_body_def recordNodeChange_def split: option.splits)

lemma attach_records:
  "listening g \<Longrightarrow> changes (snd (attach a b m n l g)) \<noteq> []"
  by (simp add: attach_def Let_def recordLinkChange_def Node_addLink_def)

lemma batch_addLink:
  fixes g :: "('nd, 'ld) Graph"
  assumes "listening g"
  shows "batch_of (AddLink a b d) g \<noteq> []"
proof -
  let ?g1 = "g\<lparr>suspendEvents := 1\<rparr>"
  have s1: "0 < suspendEvents ?g1" by simp
  obtain m g2 where e1: "endpoint a ?g1 = (m, g2)" by (cases "endpoint a ?g1")
  note n1 = nestableD(1,3) [OF endpoint_nestable [of a] s1, unfolded e1, simplified]
  have s2: "0 < suspendEvents g2" using n1 by simp
  obtain n g3 where e2: "endpoint b g2 = (n, g3)" by (cases "endpoint b g2")
  note n2 = nestableD(1,3) [OF endpoint_nestable [of b] s2, unfolded e2, simplified]
  have s3: "0 < suspendEvents g3" using n2 s2 by simp
  obtain l g4 where e3: "createLink a b d g3 = (l, g4)" by (cases "createLink a b d g3")
  note n3 = nestableD(1,3) [OF createLink_nestable [of a b d] s3, unfolded e3, simplified]
  have "listening g4" using n1 n2 n3 assms by simp
  then have "changes (snd (attach a b m n l g4)) \<noteq> []"
    by (rule attach_records)
  then show ?thesis
    unfolding batch_of_def exec.simps addLink_bracket nested_run [OF addLink_body_nestable]
    by (simp add: addLink_body_def e1 e2 e3)
qed

lemma batch_removeNode:
  fixes g :: "('nd, 'ld) Graph"
  assumes "listening g" "idle g"
  shows "(batch_of (RemoveNode nodeId) g \<noteq> []) = (getNode g nodeId \<noteq> None)"
proof (cases "getNode g nodeId")
  case None
  then show ?thesis
    using assms(2) by (simp add: batch_of_def removeNode_def getNode_def idle_def)
next
  case (Some n)
  let ?g1 = "g\<lparr>suspendEvents := 1\<rparr>"
  have g1: "getNode ?g1 nodeId = Some n" using Some by (simp add: getNode_def)
  have s1: "0 < suspendEvents ?g1" by simp
  have "listening (removeAllLinks (links_list ?g1 n) ?g1)"
    using nestableD(3) [OF removeAllLinks_nestable [of "links_list ?g1 n"] s1] assms(1)
    by simp
  then have "changes (snd (removeNode_body nodeId n ?g1)) \<noteq> []"
    by (simp add: removeNode_body_def recordNodeChange_def)
  then show ?thesis
    unfolding batch_of_def exec.simps removeNode_bracket g1 Some
    by (simp add: nested_run [OF removeNode_body_nestable])
qed

lemma batch_removeLink:
  fixes g :: "('nd, 'ld) Graph"
  assumes "listening g" "idle g"
  shows "(batch_of (RemoveLink arg) g \<noteq> []) =
     (\<exists>l. resolveLink g arg = Some l \<and> map_of (links g) (link_id (link_heap g l)) \<noteq> None)"
proof -
  let ?g1 = "g\<lparr>suspendEvents := 1\<rparr>"
  have r: "resolveLink ?g1 arg = resolveLink g arg"
    by (simp add: resolveLink_def getLink_def split: link_arg.splits)
  have c: "changes ?g1 = []" using assms(2) by (simp add: idle_def)
  show ?thesis
  proof (cases "resolveLink g arg")
    case None
    with r c show ?thesis by (simp add: batch_of_def removeLink_def)
  next
    case (Some l)
    show ?thesis
    proof (cases "map_of (links g) (link_id (link_heap g l))")
      case None
      with r c Some show ?thesis
        by (simp add: batch_of_def removeLink_def removeLinkInstance_def)
    next
      case y: (Some y)
      have "changes (snd (rli_body l ?g1)) \<noteq> []"
        using assms(1) by (simp add: rli_body_def recordLinkChange_def)
      then have "changes (snd (removeLinkInstance l ?g1)) \<noteq> []"
        using y by (simp add: rli_bracket nested_run [OF rli_body_nestable])
      with r Some y show ?thesis
        by (simp add: batch_of_def removeLink_def)
    qed
  qed
qed

lemma batch_clear_empty:
  assumes "idle g" "nodes g = []"
  shows "batch_of Clear g = []"
  using assms
  by (simp add: batch_of_def clear_def Let_def enterModification_def exitModification_def
      idle_def)

text \<open>
  Every public call keeps the nodes stored under their own ids, and inside an open
  modification the list of recorded changes only grows.
\<close>

lemma own_ids_frame:
  assumes "own_ids g" "set (nodes h) \<subseteq> set (nodes g)" "next_node g \<le> next_node h"
    and "\<And>n. n < next_node g \<Longrightarrow> node_id (node_heap h n) = node_id (node_heap g n)"
  shows "own_ids h"
  using assms unfolding own_ids_def by fastforce

lemma own_ids_bracket:
  assumes "\<And>h. own_ids h \<Longrightarrow> own_ids (snd (f h))" "own_ids g"
  shows "own_ids (snd (bracket f g))"
proof -
  have e: "own_ids (enterModification h) = own_ids h" for h :: "('a, 'b) Graph"
    by (simp add: own_ids_def enterModification_def)
  have x: "own_ids (exitModification h) = own_ids h" for h :: "('a, 'b) Graph"
    by (simp add: own_ids_def exitModification_def Let_def)
  show ?thesis
    using assms by (simp add: bracket_def e x)
qed

lemma update_cases:
  "(a, b) \<in> set (AList.update k v al) \<Longrightarrow> (a = k \<and> b = v) \<or> (a, b) \<in> set al"
  by (induction al) (auto split: if_splits)

lemma own_ids_addNode:
  assumes "own_ids g"
  shows "own_ids (snd (addNode nodeId d g))"
  unfolding addNode_bracket
proof (rule own_ids_bracket [OF _ assms])
  fix h :: "('a, 'b) Graph"
  assume h: "own_ids h"
  show "own_ids (snd (addNode_body nodeId d h))"
  proof (cases "getNode h nodeId")
    case None
    with h show ?thesis
      by (auto simp: addNode_body_def own_ids_def recordNodeChange_def less_Suc_eq
          dest!: update_cases)
  next
    case (Some n)
    with h show ?thesis
      by (auto simp: addNode_body_def own_ids_def recordNodeChange_def)
  qed
qed

lemma rli_next_node: "next_node (snd (removeLinkInstance l g)) = next_node g"
  by (simp add: removeLinkInstance_def Let_def exitModification_def recordLinkChange_def
      enterModification_def detach_def getNode_def split: option.splits)

lemma own_ids_rli:
  "own_ids g \<Longrightarrow> own_ids (snd (removeLinkInstance l g))"
  by (erule own_ids_frame) (simp_all add: rli_frame rli_next_node)

lemma own_ids_removeAllLinks:
  "own_ids g \<Longrightarrow> own_ids (removeAllLinks ls g)"
  by (induction ls arbitrary: g) (simp_all add: own_ids_rli)

lemma own_ids_removeNode:
  assumes "own_ids g"
  shows "own_ids (snd (removeNode nodeId g))"
proof (cases "getNode g nodeId")
  case None
  with assms show ?thesis by (simp add: removeNode_absent)
next
  case (Some n)
  have "own_ids (snd (removeNode_body nodeId n h))" if "own_ids h" for h :: "('a, 'b) Graph"
  proof -
    have "own_ids (removeAllLinks (links_list h n) h)"
      using that by (rule own_ids_removeAllLinks)
    then show ?thesis
    proof (rule own_ids_frame)
      show "set (nodes (snd (removeNode_body nodeId n h)))
          \<subseteq> set (nodes (removeAllLinks (links_list h n) h))"
        by (auto simp: removeNode_body_def recordNodeChange_def fold_frame AList.delete_eq)
    qed (simp_all add: removeNode_body_def recordNodeChange_def)
  qed
  then show ?thesis
    unfolding removeNode_bracket Some using assms by (simp add: own_ids_bracket)
qed

lemma own_ids_clear_loop:
  "own_ids g \<Longrightarrow> own_ids (clear_loop ks g)"
  by (induction ks arbitrary: g) (simp_all add: own_ids_removeNode split: option.splits)

lemma own_ids_attach:
  "own_ids g \<Longrightarrow> own_ids (snd (attach a b m n l g))"
  by (erule own_ids_frame) (simp_all add: attach_def Let_def recordLinkChange_def Node_addLink_def)

lemma own_ids_createLink:
  "own_ids g \<Longrightarrow> own_ids (snd (createLink a b d g))"
  by (erule own_ids_frame)
     (simp_all add: createLink_def createSingleLink_def createUniqueLink_def Link_new_def Let_def
        split: option.splits)

lemma own_ids_endpoint:
  "own_ids g \<Longrightarrow> own_ids (snd (endpoint a g))"
  by (simp add: endpoint_def own_ids_addNode split: option.splits)

lemma own_ids_addLink:
  assumes "own_ids g"
  shows "own_ids (snd (addLink a b d g))"
  unfolding addLink_bracket
proof (rule own_ids_bracket [OF _ assms])
  fix h :: "('a, 'b) Graph"
  assume h: "own_ids h"
  obtain m g2 where e1: "endpoint a h = (m, g2)" by (cases "endpoint a h")
  obtain n g3 where e2: "endpoint b g2 = (n, g3)" by (cases "endpoint b g2")
  obtain l g4 where e3: "createLink a b d g3 = (l, g4)" by (cases "createLink a b d g3")
  have "own_ids g2" using own_ids_endpoint [OF h, of a] e1 by simp
  then have "own_ids g3" using own_ids_endpoint [of g2 b] e2 by simp
  then have "own_ids g4" using own_ids_createLink [of g3 a b d] e3 by simp
  then show "own_ids (snd (addLink_body a b d h))"
    by (simp add: addLink_body_def e1 e2 e3 own_ids_attach)
qed

lemma own_ids_exec:
  assumes "own_ids g"
  shows "own_ids (exec c g)"
proof (cases c)
  case (RemoveLink arg)
  with assms show ?thesis
    by (simp add: removeLink_def own_ids_rli split: option.splits)
next
  case Clear
  have "own_ids (snd (clear_body h))" if "own_ids h" for h :: "('a, 'b) Graph"
    using that by (simp add: clear_body_def own_ids_clear_loop)
  with assms Clear show ?thesis
    by (simp add: clear_bracket own_ids_bracket)
qed (use assms in \<open>simp_all add: own_ids_addNode own_ids_addLink own_ids_removeNode\<close>)

lemma own_ids_new: "own_ids (Graph_new mg)" "own_ids (on_changed g) = own_ids g"
  by (simp_all add: own_ids_def Graph_new_def on_changed_def)

lemma removeAllLinks_grows:
  "suspendEvents g \<noteq> 0 \<Longrightarrow> \<exists>ys. changes (removeAllLinks ls g) = changes g @ ys"
proof (induction ls arbitrary: g)
  case Nil
  then show ?case by simp
next
  case (Cons a ls)
  from Cons.IH [of "snd (removeLinkInstance a g)"] Cons.prems
  show ?case by (auto simp: rli_frame rli_nested)
qed

lemma removeNode_grows:
  fixes g :: "('nd, 'ld) Graph"
  assumes s: "0 < suspendEvents g"
  shows "\<exists>ys. changes (snd (removeNode k g)) = changes g @ ys"
    and "listening g \<Longrightarrow> getNode g k \<noteq> None \<Longrightarrow> changes (snd (removeNode k g)) \<noteq> []"
proof -
  have b: "changes (snd (removeNode_body k n g)) =
      changes (removeAllLinks (links_list g n) g) @ (if listening g then [NodeChange Remove n] else [])"
    for n
    by (simp add: removeNode_body_def recordNodeChange_def fold_frame)
  from s have "suspendEvents g \<noteq> 0" by simp
  then have ys: "\<exists>ys. changes (removeAllLinks (links_list g n) g) = changes g @ ys" for n
    by (rule removeAllLinks_grows)
  show "\<exists>ys. changes (snd (removeNode k g)) = changes g @ ys"
  proof (cases "getNode g k")
    case None
    then show ?thesis by (simp add: removeNode_absent)
  next
    case (Some n)
    from ys [of n] show ?thesis
      unfolding removeNode_bracket Some
      by (auto simp: bracket_nested [OF removeNode_body_nestable s] b)
  qed
  show "changes (snd (removeNode k g)) \<noteq> []" if "listening g" "getNode g k \<noteq> None"
  proof -
    from that(2) obtain n where n: "getNode g k = Some n" by auto
    show ?thesis
      unfolding removeNode_bracket n using that(1)
      by (simp add: bracket_nested [OF removeNode_body_nestable s] b)
  qed
qed

lemma clear_loop_grows:
  fixes g :: "('nd, 'ld) Graph"
  shows "0 < suspendEvents g \<Longrightarrow> \<exists>ys. changes (clear_loop ks g) = changes g @ ys"
proof (induction ks arbitrary: g)
  case Nil
  then show ?case by simp
next
  case (Cons k ks)
  show ?case
  proof (cases "map_of (nodes g) k")
    case None
    with Cons show ?thesis by simp
  next
    case (Some n)
    let ?h = "snd (removeNode (node_id (node_heap g n)) g)"
    have "0 < suspendEvents ?h"
      using nestableD(1) [OF removeNode_nestable Cons.prems] Cons.prems by simp
    from Cons.IH [OF this] removeNode_grows(1) [OF Cons.prems, of "node_id (node_heap g n)"]
    show ?thesis using Some by auto
  qed
qed

lemma batch_clear_nonempty:
  fixes g :: "('nd, 'ld) Graph"
  assumes l: "listening g" and o: "own_ids g" and n: "nodes g \<noteq> []"
  shows "batch_of Clear g \<noteq> []"
proof -
  let ?g1 = "g\<lparr>suspendEvents := 1\<rparr>"
  from n obtain k m rest where nd: "nodes g = (k, m) # rest"
    by (cases "nodes g") auto
  have id: "node_id (node_heap g m) = k"
    using o nd by (simp add: own_ids_def)
  have s1: "0 < suspendEvents ?g1" by simp
  let ?h = "snd (removeNode k ?g1)"
  have "changes ?h \<noteq> []"
    by (rule removeNode_grows(2) [OF s1]) (simp_all add: l getNode_def nd)
  moreover have "0 < suspendEvents ?h"
    using nestableD(1) [OF removeNode_nestable s1, of k] by simp
  from clear_loop_grows [OF this, of "map fst rest"]
  obtain ys where "changes (clear_loop (map fst rest) ?h) = changes ?h @ ys" by blast
  ultimately have "changes (clear_loop (map fst (nodes ?g1)) ?g1) \<noteq> []"
    by (simp add: nd id)
  then show ?thesis
    unfolding batch_of_def exec.simps clear_bracket nested_run [OF clear_body_nestable]
    by (simp add: clear_body_def)
qed

text \<open>The multigraph with the link from 0 to 1 added twice, one call at a time.\<close>

lemma store_multi_once_value:
  "snd (addLink (NumId 0) (NumId 1) None (on_changed (Graph_new True :: (string, string) Graph))) =
     \<lparr>multigraph = True, nodes = [(NumId 0, 0), (NumId 1, 1)],
      links = [(makeId (NumId 0) (NumId 1), 0)], multiEdges = (\<lambda>_. None), suspendEvents = 0,
      listening = True, changes = [],
      node_heap = (\<lambda>_. \<lparr>node_id = NumId 0, node_links = None, node_data = None\<rparr>)
         (0 := \<lparr>node_id = NumId 0, node_links = Some [0], node_data = None\<rparr>,
          1 := \<lparr>node_id = NumId 1, node_links = Some [0], node_data = None\<rparr>),
      link_heap = (\<lambda>_. \<lparr>link_fromId = NumId 0, link_toId = NumId 0, link_data = None,
                          link_id = []\<rparr>)
         (0 := \<lparr>link_fromId = NumId 0, link_toId = NumId 1, link_data = None,
                link_id = makeId (NumId 0) (NumId 1)\<rparr>),
      next_node = 2, next_link = 1,
      emitted = [[NodeChange Add 0, NodeChange Add 1, LinkChange Add 0]]\<rparr>"
  by (simp add: store_eval numeral_2_eq_2)

lemma store_multi_0_1_value:
  "store_multi_0_1 =
     \<lparr>multigraph = True, nodes = [(NumId 0, 0), (NumId 1, 1)],
      links = [(makeId (NumId 0) (NumId 1), 1)], multiEdges = (\<lambda>_. None), suspendEvents = 0,
      listening = True, changes = [],
      node_heap = (\<lambda>_. \<lparr>node_id = NumId 0, node_links = None, node_data = None\<rparr>)
         (0 := \<lparr>node_id = NumId 0, node_links = Some [0, 1], node_data = None\<rparr>,
          1 := \<lparr>node_id = NumId 1, node_links = Some [0, 1], node_data = None\<rparr>),
      link_heap = (\<lambda>_. \<lparr>link_fromId = NumId 0, link_toId = NumId 0, link_data = None,
                          link_id = []\<rparr>)
         (0 := \<lparr>link_fromId = NumId 0, link_toId = NumId 1, link_data = None,
                link_id = makeId (NumId 0) (NumId 1)\<rparr>,
          1 := \<lparr>link_fromId = NumId 0, link_toId = NumId 1, link_data = None,
                link_id = makeId (NumId 0) (NumId 1)\<rparr>),
      next_node = 2, next_link = 2,
      emitted = [[NodeChange Add 0, NodeChange Add 1, LinkChange Add 0],
                 [LinkChange Update 1]]\<rparr>"
  unfolding store_multi_0_1_def store_multi_once_value
  by (simp add: store_eval numeral_2_eq_2)

lemma store_multi_first_removed:
  "snd (removeLinkInstance 0 (enterModification store_multi_0_1)) =
     \<lparr>multigraph = True, nodes = [(NumId 0, 0), (NumId 1, 1)],
      links = [], multiEdges = (\<lambda>_. None), suspendEvents = 1,
      listening = True, changes = [LinkChange Remove 0],
      node_heap = (\<lambda>_. \<lparr>node_id = NumId 0, node_links = None, node_data = None\<rparr>)
         (0 := \<lparr>node_id = NumId 0, node_links = Some [1], node_data = None\<rparr>,
          1 := \<lparr>node_id = NumId 1, node_links = Some [1], node_data = None\<rparr>),
      link_heap = (\<lambda>_. \<lparr>link_fromId = NumId 0, link_toId = NumId 0, link_data = None,
                          link_id = []\<rparr>)
         (0 := \<lparr>link_fromId = NumId 0, link_toId = NumId 1, link_data = None,
                link_id = makeId (NumId 0) (NumId 1)\<rparr>,
          1 := \<lparr>link_fromId = NumId 0, link_toId = NumId 1, link_data = None,
                link_id = makeId (NumId 0) (NumId 1)\<rparr>),
      next_node = 2, next_link = 2,
      emitted = [[NodeChange Add 0, NodeChange Add 1, LinkChange Add 0],
                 [LinkChange Update 1]]\<rparr>"
  unfolding store_multi_0_1_value by (simp add: store_eval numeral_2_eq_2)

lemma store_multi_second_kept:
  "removeAllLinks [0, 1] (enterModification store_multi_0_1) =
     snd (removeLinkInstance 0 (enterModification store_multi_0_1))"
  unfolding fold_simps comp_def store_multi_first_removed
  by (simp add: removeLinkInstance_def)

lemma removeNode_multi_value:
  "removeNode (NumId 0) store_multi_0_1 =
     (True,
      \<lparr>multigraph = True, nodes = [(NumId 1, 1)],
       links = [], multiEdges = (\<lambda>_. None), suspendEvents = 0,
       listening = True, changes = [],
       node_heap = (\<lambda>_. \<lparr>node_id = NumId 0, node_links = None, node_data = None\<rparr>)
          (0 := \<lparr>node_id = NumId 0, node_links = None, node_data = None\<rparr>,
           1 := \<lparr>node_id = NumId 1, node_links = Some [1], node_data = None\<rparr>),
       link_heap = (\<lambda>_. \<lparr>link_fromId = NumId 0, link_toId = NumId 0, link_data = None,
                          link_id = []\<rparr>)
         (0 := \<lparr>link_fromId = NumId 0, link_toId = NumId 1, link_data = None,
                link_id = makeId (NumId 0) (NumId 1)\<rparr>,
          1 := \<lparr>link_fromId = NumId 0, link_toId = NumId 1, link_data = None,
                link_id = makeId (NumId 0) (NumId 1)\<rparr>),
       next_node = 2, next_link = 2,
       emitted = [[NodeChange Add 0, NodeChange Add 1, LinkChange Add 0],
                  [LinkChange Update 1],
                  [LinkChange Remove 0, NodeChange Remove 0]]\<rparr>)"
proof -
  have g: "getNode store_multi_0_1 (NumId 0) = Some 0" "links_list store_multi_0_1 0 = [0, 1]"
    by (simp_all add: store_multi_0_1_value getNode_def links_list_def)
  show ?thesis
    unfolding removeNode_eq [OF g(1)] g(2) store_multi_second_kept store_multi_first_removed
    by (simp add: exitModification_def recordNodeChange_def store_multi_0_1_value fun_upd_twist)
qed

lemma store_multi_removed_value:
  "nodes store_multi_removed = [(NumId 1, Suc 0), (NumId 2, 2)]"
  "node_id (node_heap store_multi_removed (Suc 0)) = NumId 1"
  "node_links (node_heap store_multi_removed (Suc 0)) = Some [Suc 0]"
  "link_fromId (link_heap store_multi_removed (Suc 0)) = NumId 0"
  "link_toId (link_heap store_multi_removed (Suc 0)) = NumId 1"
  unfolding store_multi_removed_def removeNode_multi_value
  by (simp_all add: store_eval numeral_2_eq_2)

lemma store_1_2_inv: "graph_inv store_1_2"
  by (simp add: graph_inv_def links_list_def store_1_2_value)

text \<open>
  What \<^verbatim>\<open>removeNode(id)\<close> does on a store that satisfies the invariants.
  It returns \<^verbatim>\<open>false\<close> and leaves the store as it is when the id is absent (on
  every store). On an idle store that satisfies the invariants and holds the node, it
  returns \<^verbatim>\<open>true\<close>; the listeners (if any) get one notification, the
  \<^verbatim>\<open>remove\<close> changes of the node's links in the order of its set, then the
  \<^verbatim>\<open>remove\<close> of the node; the node is gone from the map, the ids of its links are
  gone from the store, no remaining node holds a link that names the id, and no neighbour
  enumeration yields such a link.
\<close>

lemma removeNode_cascade:
  fixes g :: "('nd, 'ld) Graph"
  shows "(getNode g nodeId = None \<longrightarrow> removeNode nodeId g = (False, g)) \<and>
   (\<forall>n. graph_inv g \<longrightarrow> idle g \<longrightarrow> getNode g nodeId = Some n \<longrightarrow>
      (let g' = snd (removeNode nodeId g)
       in fst (removeNode nodeId g) \<and>
          emitted g' = emitted g @
            (if listening g
             then [map (LinkChange Remove) (links_list g n) @ [NodeChange Remove n]] else []) \<and>
          idle g' \<and>
          nodes g' = AList.delete nodeId (nodes g) \<and>
          getNode g' nodeId = None \<and>
          (\<forall>l \<in> set (links_list g n). map_of (links g') (link_id (link_heap g l)) = None) \<and>
          (\<forall>(k, m) \<in> set (nodes g'). \<forall>l \<in> set (links_list g' m).
             link_fromId (link_heap g' l) \<noteq> nodeId \<and> link_toId (link_heap g' l) \<noteq> nodeId) \<and>
          (\<forall>k ori. \<forall>t \<in> set (fst (linkedNodes g' k ori)).
             link_fromId (link_heap g' (fst (snd t))) \<noteq> nodeId \<and>
             link_toId (link_heap g' (fst (snd t))) \<noteq> nodeId)))"
proof (intro conjI allI impI)
  assume "getNode g nodeId = None"
  then show "removeNode nodeId g = (False, g)"
    by (rule removeNode_absent)
next
  fix n
  assume inv: "graph_inv g" and idle: "idle g" and n: "getNode g nodeId = Some n"
  define g' where "g' = snd (removeNode nodeId g)"
  note c = removeNode_cascade_present [OF inv idle n, folded g'_def]
  have e: "link_fromId (link_heap g' (fst (snd t))) \<noteq> nodeId \<and>
           link_toId (link_heap g' (fst (snd t))) \<noteq> nodeId"
    if "t \<in> set (fst (linkedNodes g' k ori))" for t k ori
  proof -
    from linkedNodes_links [OF that] obtain m where
      m: "getNode g' k = Some m" "fst (snd t) \<in> set (links_list g' m)"
      by blast
    from m(1) have "(k, m) \<in> set (nodes g')"
      by (simp add: getNode_def map_of_SomeD)
    with c(7) m(2) show ?thesis
      by blast
  qed
  show "let g' = snd (removeNode nodeId g)
       in fst (removeNode nodeId g) \<and>
          emitted g' = emitted g @
            (if listening g
             then [map (LinkChange Remove) (links_list g n) @ [NodeChange Remove n]] else []) \<and>
          idle g' \<and>
          nodes g' = AList.delete nodeId (nodes g) \<and>
          getNode g' nodeId = None \<and>
          (\<forall>l \<in> set (links_list g n). map_of (links g') (link_id (link_heap g l)) = None) \<and>
          (\<forall>(k, m) \<in> set (nodes g'). \<forall>l \<in> set (links_list g' m).
             link_fromId (link_heap g' l) \<noteq> nodeId \<and> link_toId (link_heap g' l) \<noteq> nodeId) \<and>
          (\<forall>k ori. \<forall>t \<in> set (fst (linkedNodes g' k ori)).
             link_fromId (link_heap g' (fst (snd t))) \<noteq> nodeId \<and>
             link_toId (link_heap g' (fst (snd t))) \<noteq> nodeId)"
    unfolding Let_def g'_def [symmetric]
    using c e by (intro conjI) (simp, blast+)
qed

text \<open>
  The store with the link from 1 to 2, and node 1 removed: the link and then the node are
  reported in one notification, the link is gone from the store; an absent id changes nothing.
\<close>

lemma removeNode_cascade_example:
  "graph_inv store_1_2 \<and> idle store_1_2 \<and> listening store_1_2 \<and>
   getNode store_1_2 (NumId 1) = Some 0 \<and> links_list store_1_2 0 = [0] \<and>
   getNode store_1_2 (NumId 7) = None \<and>
   removeNode (NumId 7) store_1_2 = (False, store_1_2) \<and>
   fst (removeNode (NumId 1) store_1_2) \<and>
   emitted (snd (removeNode (NumId 1) store_1_2)) =
     emitted store_1_2 @ [[LinkChange Remove 0, NodeChange Remove 0]] \<and>
   getNode (snd (removeNode (NumId 1) store_1_2)) (NumId 1) = None \<and>
   map_of (links (snd (removeNode (NumId 1) store_1_2))) (link_id (link_heap store_1_2 0)) = None"
proof -
  have h: "idle store_1_2" "listening store_1_2" "getNode store_1_2 (NumId 1) = Some 0"
    "links_list store_1_2 0 = [0]" "getNode store_1_2 (NumId 7) = None"
    by (simp_all add: store_1_2_value idle_def getNode_def links_list_def)
  note t = removeNode_cascade [of store_1_2 "NumId 1", THEN conjunct2, rule_format,
      OF store_1_2_inv h(1) h(3), unfolded Let_def h(4)]
  note a = removeNode_cascade [of store_1_2 "NumId 7", THEN conjunct1, rule_format, OF h(5)]
  from t h(2) have
    "fst (removeNode (NumId 1) store_1_2)"
    "emitted (snd (removeNode (NumId 1) store_1_2)) =
       emitted store_1_2 @ [[LinkChange Remove 0, NodeChange Remove 0]]"
    "getNode (snd (removeNode (NumId 1) store_1_2)) (NumId 1) = None"
    "map_of (links (snd (removeNode (NumId 1) store_1_2))) (link_id (link_heap store_1_2 0)) = None"
    by simp_all
  with store_1_2_inv h a show ?thesis
    by blast
qed

text \<open>
  C4, the store at the input where the code departs from the claim: a multigraph with a
  listener and the link from node 0 to node 1 added twice, so that the sets of both nodes
  hold two link objects with one id. \<^verbatim>\<open>removeNode(0)\<close> returns
  \<^verbatim>\<open>true\<close> and removes the node, but it removes and reports only the first of the
  two links: for the second, \<^verbatim>\<open>removeLinkInstance\<close> finds no entry under the id
  any more and returns \<^verbatim>\<open>false\<close>. The second link, which names node 0, stays in
  the set of node 1, and the neighbour enumeration of node 1 throws
  \<^verbatim>\<open>Invalid link\<close>.
\<close>

theorem removeNode_leaves_incident_link:
  "getNode store_multi_0_1 (NumId 0) = Some 0 \<and>
   links_list store_multi_0_1 0 = [0, 1] \<and>
   link_fromId (link_heap store_multi_0_1 0) = NumId 0 \<and>
   link_fromId (link_heap store_multi_0_1 1) = NumId 0 \<and>
   fst (removeNode (NumId 0) store_multi_0_1) \<and>
   emitted (snd (removeNode (NumId 0) store_multi_0_1)) =
     emitted store_multi_0_1 @ [[LinkChange Remove 0, NodeChange Remove 0]] \<and>
   getNode (snd (removeNode (NumId 0) store_multi_0_1)) (NumId 0) = None \<and>
   getNode (snd (removeNode (NumId 0) store_multi_0_1)) (NumId 1) = Some 1 \<and>
   links_list (snd (removeNode (NumId 0) store_multi_0_1)) 1 = [1] \<and>
   link_fromId (link_heap (snd (removeNode (NumId 0) store_multi_0_1)) 1) = NumId 0 \<and>
   linkedNodes (snd (removeNode (NumId 0) store_multi_0_1)) (NumId 1) False =
     ([], Some Invalid_link)"
  unfolding removeNode_multi_value
  by (simp add: store_multi_0_1_value getNode_def links_list_def linkedNodes_def)

text \<open>
  C3 as stated fails for the calls that change nothing: with a listener registered,
  \<^verbatim>\<open>removeNode\<close> of an absent id and \<^verbatim>\<open>clear\<close> of an empty graph invoke
  the listener zero times.
\<close>

theorem listener_not_invoked_counterexample:
  "listening store_1_2 \<and> idle store_1_2 \<and>
   emitted (exec (RemoveNode (NumId 7)) store_1_2) = emitted store_1_2 \<and>
   listening (on_changed (Graph_new False :: (string, string) Graph)) \<and>
   emitted (exec Clear (on_changed (Graph_new False :: (string, string) Graph))) = []"
  by (simp add: store_1_2_value idle_def removeNode_def getNode_def clear_def Let_def
      on_changed_def Graph_new_def enterModification_def exitModification_def)

text \<open>
  C3 as the code has it. For every public mutating call on an idle store, with \<open>batch_of\<close>
  the changes the call records: the listeners' log grows by that one batch when it is not
  empty and by nothing when it is empty; the store is idle again afterwards; nothing is
  delivered when the same call runs inside an open modification. With a listener
  registered the batch is never empty for \<^verbatim>\<open>addNode\<close> and \<^verbatim>\<open>addLink\<close>;
  for \<^verbatim>\<open>removeNode\<close> it is non-empty exactly when the node exists, for
  \<^verbatim>\<open>removeLink\<close> exactly when the argument resolves to a link whose id the store
  holds; for \<^verbatim>\<open>clear\<close> it is empty when the graph has no node and non-empty when
  it has one. The last needs the nodes to be stored under their own ids, which holds for a
  new graph (\<open>own_ids_new\<close>) and which every call keeps.
\<close>

theorem change_batch_per_call:
  fixes g :: "('nd, 'ld) Graph"
  assumes "idle g"
  shows "emitted (exec c g) = emitted g @ (if batch_of c g = [] then [] else [batch_of c g]) \<and>
         idle (exec c g) \<and>
         emitted (exec c (g\<lparr>suspendEvents := 1\<rparr>)) = emitted g \<and>
         (own_ids g \<longrightarrow> own_ids (exec c g)) \<and>
         (listening g \<longrightarrow>
            (case c of
               AddNode nodeId d \<Rightarrow> batch_of c g \<noteq> []
             | AddLink fromId toId d \<Rightarrow> batch_of c g \<noteq> []
             | RemoveNode nodeId \<Rightarrow> (batch_of c g \<noteq> []) = (getNode g nodeId \<noteq> None)
             | RemoveLink arg \<Rightarrow>
                 (batch_of c g \<noteq> []) =
                 (\<exists>l. resolveLink g arg = Some l \<and>
                      map_of (links g) (link_id (link_heap g l)) \<noteq> None)
             | Clear \<Rightarrow>
                 (nodes g = [] \<longrightarrow> batch_of c g = []) \<and>
                 (own_ids g \<longrightarrow> nodes g \<noteq> [] \<longrightarrow> batch_of c g \<noteq> [])))"
proof -
  have "listening g \<longrightarrow>
            (case c of
               AddNode nodeId d \<Rightarrow> batch_of c g \<noteq> []
             | AddLink fromId toId d \<Rightarrow> batch_of c g \<noteq> []
             | RemoveNode nodeId \<Rightarrow> (batch_of c g \<noteq> []) = (getNode g nodeId \<noteq> None)
             | RemoveLink arg \<Rightarrow>
                 (batch_of c g \<noteq> []) =
                 (\<exists>l. resolveLink g arg = Some l \<and>
                      map_of (links g) (link_id (link_heap g l)) \<noteq> None)
             | Clear \<Rightarrow>
                 (nodes g = [] \<longrightarrow> batch_of c g = []) \<and>
                 (own_ids g \<longrightarrow> nodes g \<noteq> [] \<longrightarrow> batch_of c g \<noteq> []))"
    by (cases c)
       (simp_all add: batch_addNode batch_addLink batch_removeNode [OF _ assms]
          batch_removeLink [OF _ assms] batch_clear_empty [OF assms] batch_clear_nonempty)
  with exec_batch [OF assms, of c] own_ids_exec [of g c] show ?thesis
    by blast
qed

text \<open>
  On the store with the link from 1 to 2: removing node 1 gives one notification, the link
  first; adding a link between two new nodes gives one notification with the two nodes
  and then the link. On the store with the one node 1: \<^verbatim>\<open>clear\<close> gives one
  notification.
\<close>

theorem change_batch_per_call_witness:
  "idle store_1_2 \<and> listening store_1_2 \<and> getNode store_1_2 (NumId 1) \<noteq> None \<and>
   batch_of (RemoveNode (NumId 1)) store_1_2 = [LinkChange Remove 0, NodeChange Remove 0] \<and>
   emitted (exec (RemoveNode (NumId 1)) store_1_2) =
     emitted store_1_2 @ [[LinkChange Remove 0, NodeChange Remove 0]] \<and>
   idle (exec (RemoveNode (NumId 1)) store_1_2) \<and>
   batch_of (AddLink (NumId 5) (NumId 6) None) store_1_2 =
     [NodeChange Add 2, NodeChange Add 3, LinkChange Add 1] \<and>
   emitted (exec (AddLink (NumId 5) (NumId 6) None) store_1_2) =
     emitted store_1_2 @ [[NodeChange Add 2, NodeChange Add 3, LinkChange Add 1]] \<and>
   idle store_hello \<and> listening store_hello \<and> own_ids store_hello \<and>
   nodes store_hello \<noteq> [] \<and> own_ids (exec Clear store_hello) \<and>
   batch_of Clear store_hello = [NodeChange Remove 0] \<and>
   emitted (exec Clear store_hello) = emitted store_hello @ [[NodeChange Remove 0]]"
proof -
  have h: "idle store_1_2" "listening store_1_2" "getNode store_1_2 (NumId 1) \<noteq> None"
    by (simp_all add: store_1_2_value idle_def getNode_def)
  have b: "batch_of (RemoveNode (NumId 1)) store_1_2 =
      [LinkChange Remove 0, NodeChange Remove 0]"
    by (simp add: batch_of_def store_1_2_value store_eval)
  have b2: "batch_of (AddLink (NumId 5) (NumId 6) None) store_1_2 =
      [NodeChange Add 2, NodeChange Add 3, LinkChange Add 1]"
    by (simp add: batch_of_def store_1_2_value store_eval)
  have k: "idle store_hello" "listening store_hello" "own_ids store_hello"
    "nodes store_hello \<noteq> []"
    unfolding store_hello_def by (simp_all add: store_eval idle_def own_ids_def)
  have b3: "batch_of Clear store_hello = [NodeChange Remove 0]"
    unfolding store_hello_def by (simp add: batch_of_def store_eval clear_def)
  from change_batch_per_call [OF h(1), of "RemoveNode (NumId 1)"]
    change_batch_per_call [OF h(1), of "AddLink (NumId 5) (NumId 6) None"] h b b2
  have 1: "emitted (exec (RemoveNode (NumId 1)) store_1_2) =
     emitted store_1_2 @ [[LinkChange Remove 0, NodeChange Remove 0]]"
    "idle (exec (RemoveNode (NumId 1)) store_1_2)"
    "emitted (exec (AddLink (NumId 5) (NumId 6) None) store_1_2) =
     emitted store_1_2 @ [[NodeChange Add 2, NodeChange Add 3, LinkChange Add 1]]"
    by simp_all
  from change_batch_per_call [OF k(1), of Clear] k b3
  have 2: "own_ids (exec Clear store_hello)"
    "emitted (exec Clear store_hello) = emitted store_hello @ [[NodeChange Remove 0]]"
    by simp_all
  from h b b2 k b3 1 2 show ?thesis
    by blast
qed

section \<open>Properties of the pool and of the search\<close>

lemma reinit:
  "(c::NodeSearchState)\<lparr>ss_node := n, ss_parent := None, ss_closed := False, ss_open := 0,
      ss_distanceToSource := PosInf, ss_fScore := PosInf, ss_heapIndex := - 1\<rparr> =
   NodeSearchState_new n"
  by (cases c) (simp add: NodeSearchState_new_def)

lemma newState_eq:
  "newState n p =
     (currentInCache p,
      p\<lparr>nodeCache := (nodeCache p)(currentInCache p := Some (NodeSearchState_new n)),
        currentInCache := currentInCache p + 1\<rparr>)"
  by (cases "nodeCache p (currentInCache p)")
     (simp_all add: newState_def Let_def reinit)

lemma heap_pop_simps [simp]:
  "heap_pop cmp [] = None" "heap_pop cmp [x] = Some (x, [])"
  by (simp_all add: heap_pop_def)

lemma deref_assign [simp]:
  "deref (assign s f p) s = f (deref p s)"
  "s' \<noteq> s \<Longrightarrow> deref (assign s f p) s' = deref p s'"
  by (simp_all add: deref_def assign_def)

lemma linked_first:
  "t \<in> set (fst (nonOrientedLinks g n ls)) \<Longrightarrow> fst t = n"
  "t \<in> set (fst (orientedLinks g n ls)) \<Longrightarrow> fst t = n"
  by (induction ls arbitrary: t) (auto simp: Let_def split: option.splits prod.splits if_splits)

lemma linkedNodes_first:
  "getNode g k = Some n \<Longrightarrow> t \<in> set (fst (linkedNodes g k ori)) \<Longrightarrow> fst t = n"
  by (auto simp: linkedNodes_def linked_first split: option.splits if_splits)

lemma visit_closed:
  assumes "fst t = n" "s_nodeState s (node_id (node_heap g n)) = Some x"
    "ss_closed (deref (s_pool s) x)"
  shows "visit opts g to cf t s = s"
  using assms by (cases t) (simp add: visit_def Let_def)

lemma fold_visit_closed:
  assumes "\<forall>t \<in> set ts. fst t = n" "s_nodeState s (node_id (node_heap g n)) = Some x"
    "ss_closed (deref (s_pool s) x)"
  shows "fold (visit opts g to cf) ts s = s"
  using assms by (induction ts) (simp_all add: visit_closed)

lemma Astar_find_present:
  assumes "getNode g fromId = Some from" "getNode g toId = Some to"
  shows "Astar_find opts g p fromId toId =
     search_loop opts g to
       \<lparr>s_pool = start_pool opts p from to, s_nodeState = (\<lambda>_. None)(fromId := Some 0),
        s_openSet = [0]\<rparr>"
  using assms
  by (simp add: Astar_find_def newState_eq reset_def assign_def deref_def heap_push_def
      start_pool_def Let_def)

lemma Astar_find_closed_form:
  assumes f: "getNode g fromId = Some from" and t: "getNode g toId = Some to"
    and i: "node_id (node_heap g from) = fromId"
  shows "map_option fst (Astar_find opts g p fromId toId) =
     Some (if from = to then Inr (Path [from])
           else case snd (linkedNodes g fromId (opt_oriented opts)) of
                  None \<Rightarrow> Inr NO_PATH
                | Some e \<Rightarrow> Inl (Graph_error e))"
proof -
  define P0 where "P0 = start_pool opts p from to"
  define P1 where "P1 = assign 0 (\<lambda>x. x\<lparr>ss_closed := True\<rparr>) P0"
  define NS where "NS = (\<lambda>_. None)(fromId := Some (0::nat))"
  have start: "Astar_find opts g p fromId toId =
      search_loop opts g to \<lparr>s_pool = P0, s_nodeState = NS, s_openSet = [0]\<rparr>"
    by (simp add: Astar_find_present [OF f t] P0_def NS_def)
  have d0: "ss_node (deref P0 0) = from" "ss_parent (deref P0 0) = None"
    by (simp_all add: P0_def deref_def start_pool_def NodeSearchState_new_def)
  show ?thesis
  proof (cases "from = to")
    case True
    have rp: "reconstructPath P0 0 = Some [from]"
      by (simp add: reconstructPath_def d0 walk.simps)
    have gr: "goalReached (deref P0 0) to"
      using True d0 by (simp add: goalReached_def)
    have "search_loop opts g to \<lparr>s_pool = P0, s_nodeState = NS, s_openSet = [0]\<rparr> =
        Some (Inr (Path [from]), P0)"
      by (subst search_loop.simps) (simp add: gr rp)
    then show ?thesis
      using True by (simp add: start)
  next
    case False
    have ngr: "\<not> goalReached (deref P0 0) to"
      using False d0 by (simp add: goalReached_def)
    obtain ts err where ln: "linkedNodes g fromId (opt_oriented opts) = (ts, err)"
      by (cases "linkedNodes g fromId (opt_oriented opts)")
    have n1: "ss_node (deref P1 0) = from" "ss_closed (deref P1 0)"
      by (simp_all add: P1_def d0)
    have firsts: "\<forall>t \<in> set ts. fst t = from"
      using linkedNodes_first [OF f, of _ "opt_oriented opts"] ln by simp
    have fo: "fold (visit opts g to 0) ts \<lparr>s_pool = P1, s_nodeState = NS, s_openSet = []\<rparr> =
        \<lparr>s_pool = P1, s_nodeState = NS, s_openSet = []\<rparr>"
      by (rule fold_visit_closed [OF firsts, where x = 0]) (simp_all add: i n1 NS_def)
    have ex: "expand opts g to 0 \<lparr>s_pool = P1, s_nodeState = NS, s_openSet = []\<rparr> =
        (case err of None \<Rightarrow> Inr \<lparr>s_pool = P1, s_nodeState = NS, s_openSet = []\<rparr>
                   | Some e \<Rightarrow> Inl (e, \<lparr>s_pool = P1, s_nodeState = NS, s_openSet = []\<rparr>))"
      by (simp add: expand_def n1(1) i ln fo Let_def)
    have l1: "search_loop opts g to \<lparr>s_pool = P1, s_nodeState = NS, s_openSet = []\<rparr> =
        Some (Inr NO_PATH, P1)"
      by (subst search_loop.simps) simp
    have "search_loop opts g to \<lparr>s_pool = P0, s_nodeState = NS, s_openSet = [0]\<rparr> =
        (case err of None \<Rightarrow> Some (Inr NO_PATH, P1)
                   | Some e \<Rightarrow> Some (Inl (Graph_error e), P1))"
      by (subst search_loop.simps)
         (simp add: ngr P1_def [symmetric] ex l1 split: option.splits)
    then show ?thesis
      using False by (simp add: start ln split: option.splits)
  qed
qed

lemma inv_entry:
  assumes "graph_inv g" "getNode g k = Some n"
  shows "node_id (node_heap g n) = k"
    and "node_links (node_heap g n) = Some ls \<Longrightarrow> l \<in> set ls \<Longrightarrow>
           getNode g (link_fromId (link_heap g l)) \<noteq> None \<and>
           getNode g (link_toId (link_heap g l)) \<noteq> None"
proof -
  from assms(2) have m: "(k, n) \<in> set (nodes g)"
    by (simp add: getNode_def map_of_SomeD)
  with assms(1) show "node_id (node_heap g n) = k"
    unfolding graph_inv_def by blast
  assume ls: "node_links (node_heap g n) = Some ls" "l \<in> set ls"
  then have "l \<in> set (links_list g n)"
    by (simp add: links_list_def)
  with assms(1) m have
    "\<forall>e \<in> {link_fromId (link_heap g l), link_toId (link_heap g l)}.
       \<exists>m \<in> set (nodes g). fst m = e"
    unfolding graph_inv_def by fastforce
  then have "link_fromId (link_heap g l) \<in> fst ` set (nodes g)"
    "link_toId (link_heap g l) \<in> fst ` set (nodes g)"
    by force+
  then show "getNode g (link_fromId (link_heap g l)) \<noteq> None \<and>
           getNode g (link_toId (link_heap g l)) \<noteq> None"
    by (simp add: getNode_def map_of_eq_None_iff)
qed

lemma links_resolve_no_error:
  assumes "\<forall>l \<in> set ls. getNode g (link_fromId (link_heap g l)) \<noteq> None \<and>
                         getNode g (link_toId (link_heap g l)) \<noteq> None"
  shows "snd (nonOrientedLinks g n ls) = None" "snd (orientedLinks g n ls) = None"
  using assms
  by (induction ls) (auto simp: Let_def split: option.splits prod.splits)

lemma linkedNodes_no_error:
  assumes "graph_inv g"
  shows "snd (linkedNodes g k ori) = None"
proof (cases "getNode g k")
  case None
  then show ?thesis by (simp add: linkedNodes_def)
next
  case (Some n)
  show ?thesis
  proof (cases "node_links (node_heap g n)")
    case None
    with Some show ?thesis by (simp add: linkedNodes_def)
  next
    case (Some ls)
    have "\<forall>l \<in> set ls. getNode g (link_fromId (link_heap g l)) \<noteq> None \<and>
                         getNode g (link_toId (link_heap g l)) \<noteq> None"
      using inv_entry(2) [OF assms \<open>getNode g k = Some n\<close> Some] by blast
    then show ?thesis
      using \<open>getNode g k = Some n\<close> Some
      by (simp add: linkedNodes_def links_resolve_no_error)
  qed
qed

lemma Astar_find_inv:
  assumes inv: "graph_inv g"
  shows "map_option fst (Astar_find opts g p fromId toId) =
     Some (if getNode g fromId = None then Inl (Not_defined fromId)
           else if getNode g toId = None then Inl (Not_defined toId)
           else if fromId = toId then Inr (Path [the (getNode g fromId)])
           else Inr NO_PATH)"
proof (cases "getNode g fromId")
  case None
  then show ?thesis by (simp add: Astar_find_def)
next
  case (Some src)
  note f = this
  show ?thesis
  proof (cases "getNode g toId")
    case None
    with f show ?thesis by (simp add: Astar_find_def)
  next
    case (Some dst)
    note t = this
    have i: "node_id (node_heap g src) = fromId" "node_id (node_heap g dst) = toId"
      using inv_entry(1) [OF inv] f t by simp_all
    have eq: "src = dst \<longleftrightarrow> fromId = toId"
    proof
      assume "src = dst"
      with i show "fromId = toId" by metis
    next
      assume "fromId = toId"
      with f t show "src = dst" by (metis option.inject)
    qed
    have ne: "snd (linkedNodes g fromId (opt_oriented opts)) = None"
      by (rule linkedNodes_no_error [OF inv])
    have "map_option fst (Astar_find opts g p fromId toId) =
        Some (if src = dst then Inr (Path [src]) else Inr NO_PATH)"
      unfolding Astar_find_closed_form [OF f t i(1), of opts p] ne by simp
    then show ?thesis
      unfolding eq f t by (cases "fromId = toId") auto
  qed
qed

lemma store_1_2_3_inv: "graph_inv store_1_2_3"
  unfolding store_1_2_3_def store_1_2_def by (simp add: store_eval graph_inv_def)

lemma store_two_nodes_value:
  "nodes store_two_nodes = [(NumId 1, 0), (NumId 2, 1)]"
  "node_links (node_heap store_two_nodes n) = None"
  "node_id (node_heap store_two_nodes 0) = NumId 1"
  "node_id (node_heap store_two_nodes (Suc 0)) = NumId 2"
  unfolding store_two_nodes_def by (simp_all add: store_eval)

lemma store_two_nodes_inv: "graph_inv store_two_nodes"
  by (simp add: graph_inv_def links_list_def store_two_nodes_value)

lemma no_links_no_path:
  assumes "path_exists g ori a b" "\<forall>k. fst (linkedNodes g k ori) = []"
  shows "a = b"
  using assms by (induction rule: path_exists.induct) simp_all

text \<open>
  C1, the store of the spec's own scenario (nodes 1, 2, 3, links 1-2 and 2-3) and the
  store with the single link 1-2. A path exists in both, two hops and one hop long, and
  \<^verbatim>\<open>find\<close> with the default options answers \<^verbatim>\<open>NO_PATH\<close>: the loop binds
  \<^verbatim>\<open>otherNode\<close> to the first component of the triple, which is the node being expanded,
  finds its state closed and skips every neighbour.
\<close>

theorem find_misses_existing_path:
  "path_exists store_1_2_3 False (NumId 1) (NumId 3) \<and>
   map_option fst (Astar_find default_options store_1_2_3 StatePool_new (NumId 1) (NumId 3)) =
     Some (Inr NO_PATH) \<and>
   path_exists store_1_2 False (NumId 1) (NumId 2) \<and>
   map_option fst (Astar_find default_options store_1_2 StatePool_new (NumId 1) (NumId 2)) =
     Some (Inr NO_PATH)"
proof -
  have e3: "fst (linkedNodes store_1_2_3 (NumId 1) False) = [(0, 0, 1)]"
    "fst (linkedNodes store_1_2_3 (NumId 2) False) = [(1, 0, 0), (1, 1, 2)]"
    "node_id (node_heap store_1_2_3 1) = NumId 2" "node_id (node_heap store_1_2_3 2) = NumId 3"
    unfolding store_1_2_3_def store_1_2_def by (simp_all add: store_eval linkedNodes_def)
  have "path_exists store_1_2_3 False (node_id (node_heap store_1_2_3 2)) (NumId 3)"
    unfolding e3 by (rule path_exists.here)
  moreover have "(1, 1, 2) \<in> set (fst (linkedNodes store_1_2_3 (NumId 2) False))"
    unfolding e3 by simp
  ultimately have "path_exists store_1_2_3 False (NumId 2) (NumId 3)"
    by (rule path_exists.step [rotated])
  then have "path_exists store_1_2_3 False (node_id (node_heap store_1_2_3 1)) (NumId 3)"
    unfolding e3 .
  moreover have "(0, 0, 1) \<in> set (fst (linkedNodes store_1_2_3 (NumId 1) False))"
    unfolding e3 by simp
  ultimately have p3: "path_exists store_1_2_3 False (NumId 1) (NumId 3)"
    by (rule path_exists.step [rotated])
  have e2: "fst (linkedNodes store_1_2 (NumId 1) False) = [(0, 0, 1)]"
    "node_id (node_heap store_1_2 1) = NumId 2"
    by (simp_all add: store_1_2_value linkedNodes_def getNode_def)
  have "path_exists store_1_2 False (node_id (node_heap store_1_2 1)) (NumId 2)"
    unfolding e2 by (rule path_exists.here)
  moreover have "(0, 0, 1) \<in> set (fst (linkedNodes store_1_2 (NumId 1) False))"
    unfolding e2 by simp
  ultimately have p2: "path_exists store_1_2 False (NumId 1) (NumId 2)"
    by (rule path_exists.step [rotated])
  have g3: "getNode store_1_2_3 (NumId 1) = Some 0" "getNode store_1_2_3 (NumId 3) = Some 2"
    unfolding store_1_2_3_def store_1_2_def by (simp_all add: store_eval)
  have g2: "getNode store_1_2 (NumId 1) = Some 0" "getNode store_1_2 (NumId 2) = Some 1"
    by (simp_all add: store_1_2_value getNode_def)
  have r3: "map_option fst
      (Astar_find default_options store_1_2_3 StatePool_new (NumId 1) (NumId 3)) =
     Some (Inr NO_PATH)"
    unfolding Astar_find_inv [OF store_1_2_3_inv] g3 by simp
  have r2: "map_option fst
      (Astar_find default_options store_1_2 StatePool_new (NumId 1) (NumId 2)) =
     Some (Inr NO_PATH)"
    unfolding Astar_find_inv [OF store_1_2_inv] g2 by simp
  from p3 r3 p2 r2 show ?thesis
    by blast
qed

text \<open>
  C2, the store at the input where the code departs from the claim: the multigraph with the
  link from node 0 to node 1 added twice, after \<^verbatim>\<open>removeNode(0)\<close> and
  \<^verbatim>\<open>addNode(2)\<close>. Nodes 1 and 2 are both in the graph, and
  \<^verbatim>\<open>find(1, 2)\<close> throws \<^verbatim>\<open>Invalid link\<close>: the set of node 1 still holds
  a link to the removed node 0, and the neighbour enumeration of
  the start node fails on it.
\<close>

theorem find_raises_with_both_ids_present:
  "getNode store_multi_removed (NumId 1) = Some 1 \<and>
   getNode store_multi_removed (NumId 2) = Some 2 \<and>
   map_option fst
     (Astar_find default_options store_multi_removed StatePool_new (NumId 1) (NumId 2)) =
     Some (Inl (Graph_error Invalid_link))"
proof -
  have g: "getNode store_multi_removed (NumId 1) = Some (Suc 0)"
    "getNode store_multi_removed (NumId 2) = Some 2"
    by (simp_all add: getNode_def store_multi_removed_value)
  have e: "snd (linkedNodes store_multi_removed (NumId 1) (opt_oriented default_options)) =
      Some Invalid_link"
    by (simp add: linkedNodes_def default_options_def getNode_def store_multi_removed_value)
  show ?thesis
    unfolding Astar_find_closed_form [OF g store_multi_removed_value(2)] e using g by simp
qed

text \<open>
  On a store that satisfies its invariants \<^verbatim>\<open>find\<close> always returns; what it
  returns is an error exactly when the source or the destination id is not in the graph;
  with both present and no path between them it is the sentinel \<^verbatim>\<open>NO_PATH\<close>, which
  is neither an error nor an array (empty, or of one node).
\<close>

lemma Astar_find_raises_iff_absent:
  assumes "graph_inv g"
  shows "(\<exists>r. Astar_find opts g p fromId toId = Some r) \<and>
         ((\<exists>e q. Astar_find opts g p fromId toId = Some (Inl e, q)) \<longleftrightarrow>
            getNode g fromId = None \<or> getNode g toId = None) \<and>
         (getNode g fromId \<noteq> None \<longrightarrow> getNode g toId \<noteq> None \<longrightarrow>
            \<not> path_exists g (opt_oriented opts) fromId toId \<longrightarrow>
            map_option fst (Astar_find opts g p fromId toId) = Some (Inr NO_PATH)) \<and>
         NO_PATH \<noteq> Path [] \<and> (\<forall>n. NO_PATH \<noteq> Path [n])"
proof -
  note c = Astar_find_inv [OF assms, of opts p fromId toId]
  from c obtain r where r: "Astar_find opts g p fromId toId = Some r"
    by (cases "Astar_find opts g p fromId toId") auto
  have 2: "(\<exists>e q. Astar_find opts g p fromId toId = Some (Inl e, q)) \<longleftrightarrow>
            getNode g fromId = None \<or> getNode g toId = None"
    using c r by (cases r) (auto split: if_splits)
  have 3: "map_option fst (Astar_find opts g p fromId toId) = Some (Inr NO_PATH)"
    if "getNode g fromId \<noteq> None" "getNode g toId \<noteq> None"
      "\<not> path_exists g (opt_oriented opts) fromId toId"
  proof -
    from that(3) have ne: "fromId \<noteq> toId"
      using path_exists.here by metis
    from that obtain a b where "getNode g fromId = Some a" "getNode g toId = Some b"
      by auto
    with ne show ?thesis by (simp add: c)
  qed
  show ?thesis
    using r 2 3 by blast
qed

text \<open>Two nodes and no link: no path, the sentinel; an id that is absent: an error.\<close>

lemma Astar_find_raises_iff_absent_example:
  "graph_inv store_two_nodes \<and>
   getNode store_two_nodes (NumId 1) \<noteq> None \<and> getNode store_two_nodes (NumId 2) \<noteq> None \<and>
   \<not> path_exists store_two_nodes False (NumId 1) (NumId 2) \<and>
   map_option fst (Astar_find default_options store_two_nodes StatePool_new (NumId 1) (NumId 2))
     = Some (Inr NO_PATH) \<and>
   getNode store_two_nodes (NumId 7) = None \<and>
   (\<exists>e q. Astar_find default_options store_two_nodes StatePool_new (NumId 1) (NumId 7)
             = Some (Inl e, q))"
proof -
  have g: "getNode store_two_nodes (NumId 1) \<noteq> None" "getNode store_two_nodes (NumId 2) \<noteq> None"
    "getNode store_two_nodes (NumId 7) = None"
    by (simp_all add: getNode_def store_two_nodes_value)
  have "fst (linkedNodes store_two_nodes k False) = []" for k
    by (simp add: linkedNodes_def store_two_nodes_value split: option.splits)
  then have n: "\<not> path_exists store_two_nodes False (NumId 1) (NumId 2)"
    using no_links_no_path [of store_two_nodes False "NumId 1" "NumId 2"] by auto
  have o: "opt_oriented default_options = False"
    by (simp add: default_options_def)
  from Astar_find_raises_iff_absent
         [OF store_two_nodes_inv, of default_options StatePool_new "NumId 1" "NumId 2"] g n o
  have 1: "map_option fst
      (Astar_find default_options store_two_nodes StatePool_new (NumId 1) (NumId 2))
     = Some (Inr NO_PATH)"
    by simp
  from Astar_find_raises_iff_absent
         [OF store_two_nodes_inv, of default_options StatePool_new "NumId 1" "NumId 7"] g
  have 2: "\<exists>e q. Astar_find default_options store_two_nodes StatePool_new (NumId 1) (NumId 7)
             = Some (Inl e, q)"
    by blast
  from store_two_nodes_inv g n 1 2 show ?thesis
    by blast
qed

text \<open>
  C7. The state \<^verbatim>\<open>newState(node)\<close> returns has every field at its initial value and
  \<^verbatim>\<open>node\<close> as given, whatever the slot held before (a fresh slot or a recycled one);
  and on a store that satisfies its invariants the result of \<^verbatim>\<open>find\<close> is the same
  from any two pools, so nothing an earlier call left in the pool reaches a later result.
\<close>

theorem newState_fully_reset:
  "ss_node (deref (snd (newState n p)) (fst (newState n p))) = n \<and>
   ss_parent (deref (snd (newState n p)) (fst (newState n p))) = None \<and>
   ss_closed (deref (snd (newState n p)) (fst (newState n p))) = False \<and>
   ss_open (deref (snd (newState n p)) (fst (newState n p))) = 0 \<and>
   ss_distanceToSource (deref (snd (newState n p)) (fst (newState n p))) = PosInf \<and>
   ss_fScore (deref (snd (newState n p)) (fst (newState n p))) = PosInf \<and>
   ss_heapIndex (deref (snd (newState n p)) (fst (newState n p))) = - 1 \<and>
   (graph_inv g \<longrightarrow>
      map_option fst (Astar_find opts g p' fromId toId) =
      map_option fst (Astar_find opts g q fromId toId))"
  by (simp add: newState_eq deref_def NodeSearchState_new_def Astar_find_inv)

text \<open>The slot of \<open>pool_used\<close> is recycled and comes back clean; the result is as from a new pool.\<close>

theorem newState_fully_reset_witness:
  "nodeCache (reset pool_used) (currentInCache (reset pool_used)) \<noteq> None \<and>
   ss_closed (deref pool_used 0) \<and>
   deref (snd (newState 2 (reset pool_used))) (fst (newState 2 (reset pool_used))) =
     NodeSearchState_new 2 \<and>
   graph_inv store_1_2_3 \<and>
   map_option fst (Astar_find default_options store_1_2_3 pool_used (NumId 3) (NumId 3)) =
   map_option fst (Astar_find default_options store_1_2_3 StatePool_new (NumId 3) (NumId 3))"
proof -
  have a: "nodeCache (reset pool_used) (currentInCache (reset pool_used)) \<noteq> None"
    "ss_closed (deref pool_used 0)"
    by (simp_all add: pool_used_def reset_def deref_def)
  have b: "deref (snd (newState 2 (reset pool_used))) (fst (newState 2 (reset pool_used))) =
     NodeSearchState_new 2"
    by (simp add: newState_eq deref_def)
  from newState_fully_reset
         [of 2 "reset pool_used" store_1_2_3 default_options pool_used "NumId 3" "NumId 3"
            StatePool_new]
       store_1_2_3_inv a b
  show ?thesis
    by blast
qed

text \<open>
  C8. One step of the expand loop, for a neighbour that already has a search state. With
  \<open>t\<close> the tentative distance and \<open>d\<close> the neighbour's distance so far: when
  \<open>t \<ge> d\<close> the step changes nothing (an equal cost keeps the predecessor found first);
  the step changes something only when \<open>t \<ge> d\<close> is false, which for numbers (not
  \<^verbatim>\<open>NaN\<close>) is \<open>t < d\<close>; and when no guard skips the neighbour, the predecessor,
  the distance and the score are set and the neighbour is pushed.
\<close>

theorem relax_only_strict_improvement:
  assumes "s_nodeState s (node_id (node_heap g otherNode)) = Some x"
  shows "let cf = deref (s_pool s) cameFrom;
             t = js_add (ss_distanceToSource cf) (opt_distance opts otherNode (ss_node cf) link);
             d = ss_distanceToSource (deref (s_pool s) x);
             s' = visit opts g to cameFrom (otherNode, link, third) s
         in (js_ge t d \<longrightarrow> s' = s) \<and>
            (s' \<noteq> s \<longrightarrow> \<not> js_ge t d) \<and>
            (t \<noteq> NaN \<longrightarrow> d \<noteq> NaN \<longrightarrow> (\<not> js_ge t d) = js_lt t d) \<and>
            (\<not> ss_closed (deref (s_pool s) x) \<longrightarrow>
             \<not> opt_blocked opts otherNode (ss_node cf) link \<longrightarrow>
             \<not> opt_blockedPath opts (s_pool s) cameFrom x link \<longrightarrow>
             \<not> js_ge t d \<longrightarrow>
               s' = s\<lparr>s_pool := assign x (\<lambda>y. y\<lparr>ss_parent := Some cameFrom,
                                    ss_distanceToSource := t,
                                    ss_fScore := js_add t (opt_heuristic opts (ss_node y) to)\<rparr>)
                                  (s_pool s),
                      s_openSet := heap_push (s_openSet s) x\<rparr>)"
proof -
  have ge: "(\<not> js_ge t d) = js_lt t d" if "t \<noteq> NaN" "d \<noteq> NaN" for t d
    using that by (cases t; cases d) simp_all
  show ?thesis
    using assms ge by (auto simp: visit_def Let_def)
qed

text \<open>
  State 1 (distance 1) expands towards the node of state 2, already reached through
  state 3 at distance 2: the tentative distance is 2 as well, and state 2 keeps state 3.
\<close>

theorem relax_only_strict_improvement_witness:
  "s_nodeState search_tie (node_id (node_heap store_1_2_3 2)) = Some 2 \<and>
   js_add (ss_distanceToSource (deref (s_pool search_tie) 1))
     (opt_distance default_options 2 (ss_node (deref (s_pool search_tie) 1)) 1) = Fin 2 \<and>
   ss_distanceToSource (deref (s_pool search_tie) 2) = Fin 2 \<and>
   js_ge (Fin 2) (Fin 2) \<and>
   visit default_options store_1_2_3 2 1 (2, 1, 1) search_tie = search_tie \<and>
   ss_parent (deref (s_pool (visit default_options store_1_2_3 2 1 (2, 1, 1) search_tie)) 2) =
     Some 3"
proof -
  have h: "s_nodeState search_tie (node_id (node_heap store_1_2_3 2)) = Some 2"
    unfolding store_1_2_3_def store_1_2_def by (simp add: store_eval search_tie_def)
  have t: "js_add (ss_distanceToSource (deref (s_pool search_tie) 1))
     (opt_distance default_options 2 (ss_node (deref (s_pool search_tie) 1)) 1) = Fin 2"
    and d: "ss_distanceToSource (deref (s_pool search_tie) 2) = Fin 2"
    and q: "ss_parent (deref (s_pool search_tie) 2) = Some 3"
    by (simp_all add: search_tie_def deref_def default_options_def)
  note r = relax_only_strict_improvement
    [OF h, of 1 default_options 1 2 1, unfolded Let_def, THEN conjunct1, unfolded t d]
  have v: "visit default_options store_1_2_3 2 1 (2, 1, 1) search_tie = search_tie"
    using r by simp
  from h t d q v show ?thesis
    by simp
qed

end
